theory Spec2Isabelle
  imports Main "HOL-Library.Word" "HOL-Library.Multiset"
begin

unbundle bit_operations_syntax

section \<open>Fletcher checksums (module/zcommon/zfs_fletcher.c)\<close>

text \<open>
  A buffer \<^verbatim>\<open>const void *buf\<close> is read by the kernels through a typed pointer
  (\<^verbatim>\<open>const uint32_t *ip\<close> or \<^verbatim>\<open>const uint64_t *ip\<close>); it is modelled as the list of
  host-order words stored from \<^verbatim>\<open>buf\<close> on. \<^verbatim>\<open>size\<close> (here \<open>sz\<close>) is the byte count the caller
  passes, a \<^verbatim>\<open>uint64_t\<close>. A read behind the end of the list is a read outside the
  buffer: the kernels then have no defined result, which is the value \<open>None\<close>.
  The accumulators are \<^verbatim>\<open>uint64_t\<close>: \<open>+\<close> on \<open>64 word\<close> wraps modulo \<open>2 ^ 64\<close>.
\<close>

type_synonym uint32_t = "32 word"
type_synonym uint64_t = "64 word"

text \<open>\<^verbatim>\<open>zio_cksum_t\<close>: the four words \<^verbatim>\<open>zc_word[0..3]\<close>.\<close>

type_synonym zio_cksum_t = "uint64_t \<times> uint64_t \<times> uint64_t \<times> uint64_t"

text \<open>
  Modelled from the spec: the macro \<^verbatim>\<open>ZIO_SET_CHECKSUM\<close> (sys/spa.h) is not part of the
  sources at hand. The fingerprint is the 4-word record set from \<open>(a, b, c, d)\<close>.
\<close>

definition ZIO_SET_CHECKSUM :: "uint64_t \<Rightarrow> uint64_t \<Rightarrow> uint64_t \<Rightarrow> uint64_t \<Rightarrow> zio_cksum_t" where
  "ZIO_SET_CHECKSUM a b c d = (a, b, c, d)"

text \<open>
  Modelled from the spec: the byte-order primitives \<^verbatim>\<open>BSWAP_32\<close> and \<^verbatim>\<open>BSWAP_64\<close>
  (sys/byteorder.h) are not part of the sources at hand. They are the 32-bit and the
  64-bit byte reverse, written here with masks and shifts.
\<close>

definition BSWAP_8 :: "'a::len word \<Rightarrow> 'a word" where
  "BSWAP_8 x = x AND 0xff"

definition BSWAP_16 :: "'a::len word \<Rightarrow> 'a word" where
  "BSWAP_16 x = push_bit 8 (BSWAP_8 x) OR BSWAP_8 (drop_bit 8 x)"

definition BSWAP_32 :: "uint32_t \<Rightarrow> uint32_t" where
  "BSWAP_32 x = push_bit 16 (BSWAP_16 x) OR BSWAP_16 (drop_bit 16 x)"

definition BSWAP_32w :: "uint64_t \<Rightarrow> uint64_t" where
  "BSWAP_32w x = push_bit 16 (BSWAP_16 x) OR BSWAP_16 (drop_bit 16 x)"

definition BSWAP_64 :: "uint64_t \<Rightarrow> uint64_t" where
  "BSWAP_64 x = push_bit 32 (BSWAP_32w x) OR BSWAP_32w (drop_bit 32 x)"

subsection \<open>Fletcher-2\<close>

text \<open>
  \<^verbatim>\<open>for (a0 = b0 = a1 = b1 = 0; ip < ipend; ip += 2)\<close>: \<open>ip\<close> and \<open>ipend\<close> are word
  indices into the buffer; every round reads \<^verbatim>\<open>ip[0]\<close> and \<^verbatim>\<open>ip[1]\<close>.
\<close>

function fletcher_2_native_loop ::
  "uint64_t list \<Rightarrow> nat \<Rightarrow> nat \<Rightarrow> zio_cksum_t \<Rightarrow> zio_cksum_t option" where
  "fletcher_2_native_loop buf ip ipend (a0, a1, b0, b1) =
     (if ip < ipend then
        (if ip + 1 < length buf then
           (let a0' = a0 + buf ! ip;
                a1' = a1 + buf ! (ip + 1);
                b0' = b0 + a0';
                b1' = b1 + a1'
            in fletcher_2_native_loop buf (ip + 2) ipend (a0', a1', b0', b1'))
         else None)
      else Some (ZIO_SET_CHECKSUM a0 a1 b0 b1))"
  by pat_completeness auto
termination
  by (relation "measure (\<lambda>(buf, ip, ipend, s). ipend - ip)") auto

declare fletcher_2_native_loop.simps [simp del]

definition fletcher_2_native :: "uint64_t list \<Rightarrow> uint64_t \<Rightarrow> zio_cksum_t option" where
  "fletcher_2_native buf sz = fletcher_2_native_loop buf 0 (unat (sz div 8)) (0, 0, 0, 0)"

function fletcher_2_byteswap_loop ::
  "uint64_t list \<Rightarrow> nat \<Rightarrow> nat \<Rightarrow> zio_cksum_t \<Rightarrow> zio_cksum_t option" where
  "fletcher_2_byteswap_loop buf ip ipend (a0, a1, b0, b1) =
     (if ip < ipend then
        (if ip + 1 < length buf then
           (let a0' = a0 + BSWAP_64 (buf ! ip);
                a1' = a1 + BSWAP_64 (buf ! (ip + 1));
                b0' = b0 + a0';
                b1' = b1 + a1'
            in fletcher_2_byteswap_loop buf (ip + 2) ipend (a0', a1', b0', b1'))
         else None)
      else Some (ZIO_SET_CHECKSUM a0 a1 b0 b1))"
  by pat_completeness auto
termination
  by (relation "measure (\<lambda>(buf, ip, ipend, s). ipend - ip)") auto

declare fletcher_2_byteswap_loop.simps [simp del]

definition fletcher_2_byteswap :: "uint64_t list \<Rightarrow> uint64_t \<Rightarrow> zio_cksum_t option" where
  "fletcher_2_byteswap buf sz = fletcher_2_byteswap_loop buf 0 (unat (sz div 8)) (0, 0, 0, 0)"

subsection \<open>Fletcher-4, scalar kernel\<close>

definition fletcher_4_scalar_init :: "zio_cksum_t \<Rightarrow> zio_cksum_t" where
  "fletcher_4_scalar_init zcp = ZIO_SET_CHECKSUM 0 0 0 0"

text \<open>
  \<^verbatim>\<open>for (; ip < ipend; ip++)\<close> with \<^verbatim>\<open>a += ip[0]\<close>: the 32-bit word is zero-extended to
  64 bits (\<open>ucast\<close>) before it is added.
\<close>

function fletcher_4_scalar_loop ::
  "uint32_t list \<Rightarrow> nat \<Rightarrow> nat \<Rightarrow> zio_cksum_t \<Rightarrow> zio_cksum_t option" where
  "fletcher_4_scalar_loop buf ip ipend (a, b, c, d) =
     (if ip < ipend then
        (if ip < length buf then
           (let a' = a + ucast (buf ! ip);
                b' = b + a';
                c' = c + b';
                d' = d + c'
            in fletcher_4_scalar_loop buf (ip + 1) ipend (a', b', c', d'))
         else None)
      else Some (ZIO_SET_CHECKSUM a b c d))"
  by pat_completeness auto
termination
  by (relation "measure (\<lambda>(buf, ip, ipend, s). ipend - ip)") auto

declare fletcher_4_scalar_loop.simps [simp del]

definition fletcher_4_scalar :: "uint32_t list \<Rightarrow> uint64_t \<Rightarrow> zio_cksum_t \<Rightarrow> zio_cksum_t option" where
  "fletcher_4_scalar buf sz zcp = fletcher_4_scalar_loop buf 0 (unat (sz div 4)) zcp"

function fletcher_4_scalar_byteswap_loop ::
  "uint32_t list \<Rightarrow> nat \<Rightarrow> nat \<Rightarrow> zio_cksum_t \<Rightarrow> zio_cksum_t option" where
  "fletcher_4_scalar_byteswap_loop buf ip ipend (a, b, c, d) =
     (if ip < ipend then
        (if ip < length buf then
           (let a' = a + ucast (BSWAP_32 (buf ! ip));
                b' = b + a';
                c' = c + b';
                d' = d + c'
            in fletcher_4_scalar_byteswap_loop buf (ip + 1) ipend (a', b', c', d'))
         else None)
      else Some (ZIO_SET_CHECKSUM a b c d))"
  by pat_completeness auto
termination
  by (relation "measure (\<lambda>(buf, ip, ipend, s). ipend - ip)") auto

declare fletcher_4_scalar_byteswap_loop.simps [simp del]

definition fletcher_4_scalar_byteswap ::
  "uint32_t list \<Rightarrow> uint64_t \<Rightarrow> zio_cksum_t \<Rightarrow> zio_cksum_t option" where
  "fletcher_4_scalar_byteswap buf sz zcp =
     fletcher_4_scalar_byteswap_loop buf 0 (unat (sz div 4)) zcp"

text \<open>The incremental entry points call the scalar kernel on the caller's state.\<close>

definition fletcher_4_incremental_native ::
  "uint32_t list \<Rightarrow> uint64_t \<Rightarrow> zio_cksum_t \<Rightarrow> zio_cksum_t option" where
  "fletcher_4_incremental_native buf sz zcp = fletcher_4_scalar buf sz zcp"

definition fletcher_4_incremental_byteswap ::
  "uint32_t list \<Rightarrow> uint64_t \<Rightarrow> zio_cksum_t \<Rightarrow> zio_cksum_t option" where
  "fletcher_4_incremental_byteswap buf sz zcp = fletcher_4_scalar_byteswap buf sz zcp"

text \<open>
  The recurrence of the specification, on natural numbers with the reduction modulo
  \<open>2 ^ 64\<close> written out: for each word \<open>w\<close>, \<open>a += w; b += a; c += b; d += c\<close>.
\<close>

definition fletcher4_spec_step :: "nat \<times> nat \<times> nat \<times> nat \<Rightarrow> nat \<Rightarrow> nat \<times> nat \<times> nat \<times> nat" where
  "fletcher4_spec_step s w =
     (case s of (a, b, c, d) \<Rightarrow>
        (let a' = (a + w) mod 2 ^ 64;
             b' = (b + a') mod 2 ^ 64;
             c' = (c + b') mod 2 ^ 64;
             d' = (d + c') mod 2 ^ 64
         in (a', b', c', d')))"

primrec fletcher4_spec :: "nat list \<Rightarrow> nat \<times> nat \<times> nat \<times> nat \<Rightarrow> nat \<times> nat \<times> nat \<times> nat" where
  "fletcher4_spec [] s = s"
| "fletcher4_spec (w # ws) s = fletcher4_spec ws (fletcher4_spec_step s w)"

section \<open>Declustered-RAID maps (hktest/draid.c)\<close>

text \<open>
  The C \<^verbatim>\<open>int\<close>s that hold counts, slot indices and device ids are never negative in a
  map that \<^verbatim>\<open>new_map\<close> or \<^verbatim>\<open>develop_map\<close> built; they are natural numbers here. The group
  sizes are not: \<^verbatim>\<open>new_map\<close> computes \<^verbatim>\<open>(ndevs - nspares) / ngroups\<close> in \<^verbatim>\<open>int\<close>, which is
  negative with more spares than devices, so \<open>groupsz\<close> holds integers and the slot index
  that \<^verbatim>\<open>eval_resilver\<close> advances by them is an integer. The entries of \<^verbatim>\<open>broken\<close> are what
  \<^verbatim>\<open>malloc\<close> left until \<^verbatim>\<open>eval_decluster\<close> stores into them: an entry is \<open>None\<close> until then.
  The counters \<^verbatim>\<open>reads[]\<close> and \<^verbatim>\<open>writes[]\<close> only grow from zero and are natural numbers as
  well; the sums of \<^verbatim>\<open>eval_decluster\<close> are checked against \<^verbatim>\<open>INT_MAX\<close>. The random tags are
  signed.

  What stops the program is a value of type \<open>error\<close>: a failed \<^verbatim>\<open>assert\<close>, an access
  outside an array, a read of an entry that was never stored, a division by zero, a signed
  overflow. \<open>InvalidArgument\<close> is the error kind of the specification; no statement of
  draid.c produces it.
  Output (\<^verbatim>\<open>printf\<close>) is not modelled, and neither is the \<^verbatim>\<open>print\<close> flag that only selects
  output.
\<close>

datatype error =
  AssertionFailed | OutOfBounds | Uninitialised | DivisionByZero | SignedOverflow | InvalidArgument

record map_t =
  ndevs :: nat
  ngroups :: nat
  groupsz :: "int list"
  nspares :: nat
  nrows :: nat
  rows :: "nat list list"
  nbroken :: nat
  broken :: "nat option list"

text \<open>\<^verbatim>\<open>pair_t\<close>: the pair \<open>(value, order)\<close>.\<close>

type_synonym pair_t = "nat \<times> int"

definition MAX_GROUPSIZE :: nat where "MAX_GROUPSIZE = 32"
definition MAX_GROUPS :: nat where "MAX_GROUPS = 128"
definition MAX_SPARES :: nat where "MAX_SPARES = 100"
definition MAX_DEVS :: nat where "MAX_DEVS = MAX_GROUPSIZE * MAX_GROUPS + MAX_SPARES"
definition MAX_ROWS :: nat where "MAX_ROWS = 16384"

definition EVAL_WORST :: int where "EVAL_WORST = 0"
definition EVAL_MEAN :: int where "EVAL_MEAN = 1"
definition EVAL_RMS :: int where "EVAL_RMS = 2"

definition INT_MAX :: int where "INT_MAX = 2147483647"

text \<open>The division of C on \<^verbatim>\<open>int\<close>: the quotient is truncated towards zero.\<close>

definition c_div :: "int \<Rightarrow> int \<Rightarrow> int" where
  "c_div a b = sgn a * sgn b * (\<bar>a\<bar> div \<bar>b\<bar>)"

subsection \<open>Counted loops\<close>

text \<open>
  \<^verbatim>\<open>for (i = lo; i < hi; i++) body\<close>, where the body may stop the program: the loop
  carries the variables the body assigns.
\<close>

function for_loop :: "nat \<Rightarrow> nat \<Rightarrow> (nat \<Rightarrow> 's \<Rightarrow> error + 's) \<Rightarrow> 's \<Rightarrow> error + 's" where
  "for_loop i hi body s =
     (if i < hi then
        (case body i s of
           Inl e \<Rightarrow> Inl e
         | Inr s' \<Rightarrow> for_loop (i + 1) hi body s')
      else Inr s)"
  by pat_completeness auto
termination
  by (relation "measure (\<lambda>(i, hi, body, s). hi - i)") auto

declare for_loop.simps [simp del]

subsection \<open>The random generator\<close>

text \<open>
  Modelled from the spec: \<^verbatim>\<open>mrand48\<close> belongs to the C library, not to the sources at
  hand. It is the 48-bit linear congruential generator of the specification, with the
  multiplier and the increment of the \<^verbatim>\<open>drand48\<close> family; a draw steps the state and
  returns its upper 32 bits as a signed number. The state is passed explicitly.
\<close>

type_synonym rng = "48 word"

definition mrand48 :: "rng \<Rightarrow> int \<times> rng" where
  "mrand48 x =
     (let x' = 0x5DEECE66D * x + 0xB
      in (sint (ucast (drop_bit 16 x') :: 32 word), x'))"

subsection \<open>\<^verbatim>\<open>permute_devs\<close>\<close>

text \<open>The first loop: \<^verbatim>\<open>tmp[i].value = in[i]; tmp[i].order = mrand48();\<close>\<close>

definition assign_order :: "nat list \<Rightarrow> nat \<Rightarrow> pair_t list \<times> rng \<Rightarrow> error + pair_t list \<times> rng" where
  "assign_order inp ndevs' =
     for_loop 0 ndevs' (\<lambda>i (tmp, g).
       if i < length inp then
         (case mrand48 g of (r, g') \<Rightarrow> Inr (tmp[i := (inp ! i, r)], g'))
       else Inl OutOfBounds)"

text \<open>The two nested loops that exchange \<^verbatim>\<open>tmp[i]\<close> and \<^verbatim>\<open>tmp[j]\<close> when out of order.\<close>

definition sort_inner :: "nat \<Rightarrow> nat \<Rightarrow> pair_t list \<Rightarrow> error + pair_t list" where
  "sort_inner i ndevs' =
     for_loop (i + 1) ndevs' (\<lambda>j tmp.
       if snd (tmp ! i) > snd (tmp ! j) then Inr (tmp[i := tmp ! j, j := tmp ! i])
       else Inr tmp)"

definition sort_order :: "nat \<Rightarrow> pair_t list \<Rightarrow> error + pair_t list" where
  "sort_order ndevs' = for_loop 0 ndevs' (\<lambda>i tmp. sort_inner i ndevs' tmp)"

text \<open>The last loop: \<^verbatim>\<open>out[i] = tmp[i].value;\<close>\<close>

definition store_out :: "pair_t list \<Rightarrow> nat \<Rightarrow> nat list \<Rightarrow> error + nat list" where
  "store_out tmp ndevs' = for_loop 0 ndevs' (\<lambda>i out. Inr (out[i := fst (tmp ! i)]))"

text \<open>
  \<^verbatim>\<open>permute_devs(in, out, ndevs)\<close>: \<open>out\<close> is the array of \<open>ndevs\<close> slots that the caller
  allocated, \<open>tmp\<close> the local array of \<open>ndevs\<close> pairs; the function returns the new
  contents of \<open>out\<close> and the state of the generator.
\<close>

definition permute_devs :: "nat list \<Rightarrow> nat list \<Rightarrow> nat \<Rightarrow> rng \<Rightarrow> error + nat list \<times> rng" where
  "permute_devs inp out ndevs' g =
     (if ndevs' = 2 then
        (if length inp < 2 \<or> length out < 2 then Inl OutOfBounds
         else
           (let i = inp ! 0; j = inp ! 1
            in Inr (out[0 := j, 1 := i], g)))
      else
        (case assign_order inp ndevs' (replicate ndevs' (0, 0), g) of
           Inl e \<Rightarrow> Inl e
         | Inr (tmp, g') \<Rightarrow>
             (case sort_order ndevs' tmp of
                Inl e \<Rightarrow> Inl e
              | Inr tmp' \<Rightarrow>
                  (case store_out tmp' ndevs' out of
                     Inl e \<Rightarrow> Inl e
                   | Inr out' \<Rightarrow> Inr (out', g')))))"

subsection \<open>\<^verbatim>\<open>new_map\<close>\<close>

text \<open>
  The row loop: \<open>rs\<close> holds the rows \<open>0 .. i - 1\<close> filled so far; row \<open>i\<close> is a fresh
  array of \<open>ndevs\<close> slots (their contents before the first store do not matter: every slot
  is stored).
\<close>

definition fill_rows :: "nat \<Rightarrow> nat \<Rightarrow> nat list list \<times> rng \<Rightarrow> error + nat list list \<times> rng" where
  "fill_rows nrows' ndevs' =
     for_loop 0 nrows' (\<lambda>i (rs, g).
       if i = 0 then
         (case for_loop 0 ndevs' (\<lambda>j row. Inr (row[j := j])) (replicate ndevs' 0) of
            Inl e \<Rightarrow> Inl e
          | Inr row \<Rightarrow> Inr (rs @ [row], g))
       else
         (case permute_devs (rs ! (i - 1)) (replicate ndevs' 0) ndevs' g of
            Inl e \<Rightarrow> Inl e
          | Inr (row, g') \<Rightarrow> Inr (rs @ [row], g')))"

text \<open>
  \<^verbatim>\<open>int groupsz = (ndevs - nspares) / ngroups\<close> is the quotient of C on \<^verbatim>\<open>int\<close>.
  \<^verbatim>\<open>broken\<close> is allocated with \<open>nspares\<close> entries and not initialised.
\<close>

definition new_map :: "nat \<Rightarrow> nat \<Rightarrow> nat \<Rightarrow> nat \<Rightarrow> rng \<Rightarrow> error + map_t \<times> rng" where
  "new_map ndevs' ngroups' nspares' nrows' g =
     (if ngroups' = 0 then Inl DivisionByZero
      else
        (let groupsz' = c_div (int ndevs' - int nspares') (int ngroups')
         in (case fill_rows nrows' ndevs' ([], g) of
               Inl e \<Rightarrow> Inl e
             | Inr (rs, g') \<Rightarrow>
                 Inr (\<lparr>ndevs = ndevs', ngroups = ngroups',
                       groupsz = replicate ngroups' groupsz',
                       nspares = nspares', nrows = nrows', rows = rs,
                       nbroken = 0, broken = replicate nspares' None\<rparr>, g'))))"

subsection \<open>\<^verbatim>\<open>develop_map\<close>\<close>

text \<open>
  \<^verbatim>\<open>dmap->rows[base*ndevs+add][j] = (bmap->rows[base][j]+add) % ndevs\<close>, in the three
  nested loops over \<open>base\<close>, \<open>add\<close> and \<open>j\<close>. The operands of \<^verbatim>\<open>%\<close> are not negative, so
  that it is \<open>mod\<close>; \<open>ndevs\<close> is not zero where the statement runs.
\<close>

definition develop_rows :: "map_t \<Rightarrow> nat list list \<Rightarrow> error + nat list list" where
  "develop_rows bmap =
     for_loop 0 (nrows bmap) (\<lambda>base.
       for_loop 0 (ndevs bmap) (\<lambda>add.
         for_loop 0 (ndevs bmap) (\<lambda>j drows.
           if base < length (rows bmap) \<and> j < length (rows bmap ! base) \<and>
              base * ndevs bmap + add < length drows \<and>
              j < length (drows ! (base * ndevs bmap + add))
           then
             Inr (drows[base * ndevs bmap + add :=
                    (drows ! (base * ndevs bmap + add))
                      [j := (rows bmap ! base ! j + add) mod ndevs bmap]])
           else Inl OutOfBounds)))"

definition develop_map :: "map_t \<Rightarrow> rng \<Rightarrow> error + map_t \<times> rng" where
  "develop_map bmap g =
     (case new_map (ndevs bmap) (ngroups bmap) (nspares bmap) (nrows bmap * ndevs bmap) g of
        Inl e \<Rightarrow> Inl e
      | Inr (dmap, g') \<Rightarrow>
          (case develop_rows bmap (rows dmap) of
             Inl e \<Rightarrow> Inl e
           | Inr drows \<Rightarrow> Inr (dmap\<lparr>rows := drows\<rparr>, g')))"

subsection \<open>Fresh tags\<close>

text \<open>
  The specification's "freshly drawn random tags": the first \<open>n\<close> draws from the state
  \<open>g\<close>, in the order they are drawn, with the state they leave.
\<close>

primrec draw_tags :: "nat \<Rightarrow> rng \<Rightarrow> int list \<times> rng" where
  "draw_tags 0 g = ([], g)"
| "draw_tags (Suc n) g =
     (case draw_tags n g of (tags, g') \<Rightarrow>
        (case mrand48 g' of (r, g'') \<Rightarrow> (tags @ [r], g'')))"

subsection \<open>\<^verbatim>\<open>is_broken\<close>\<close>

text \<open>
  \<^verbatim>\<open>for (i = 0; i < map->nbroken; i++) if (dev == map->broken[i]) return 1; return 0;\<close>
  The parameter \<^verbatim>\<open>map\<close> is called \<open>mp\<close> throughout.
\<close>

function is_broken_from :: "map_t \<Rightarrow> nat \<Rightarrow> nat \<Rightarrow> error + bool" where
  "is_broken_from mp dev i =
     (if i < nbroken mp then
        (if i < length (broken mp) then
           (case broken mp ! i of
              None \<Rightarrow> Inl Uninitialised
            | Some b \<Rightarrow> (if dev = b then Inr True else is_broken_from mp dev (i + 1)))
         else Inl OutOfBounds)
      else Inr False)"
  by pat_completeness auto
termination
  by (relation "measure (\<lambda>(mp, dev, i). nbroken mp - i)") auto

declare is_broken_from.simps [simp del]

definition is_broken :: "map_t \<Rightarrow> nat \<Rightarrow> error + bool" where
  "is_broken mp dev = is_broken_from mp dev 0"

subsection \<open>\<^verbatim>\<open>eval_resilver\<close>\<close>

text \<open>
  The scan of a group:
  \<^verbatim>\<open>for (k = 0; k < groupsz && !fix; k++) fix = is_broken(map, each_row[index + k]);\<close>
\<close>

function scan_group :: "map_t \<Rightarrow> nat list \<Rightarrow> nat \<Rightarrow> nat \<Rightarrow> nat \<Rightarrow> error + bool" where
  "scan_group mp each_row index groupsz' k =
     (if k < groupsz' then
        (if index + k < length each_row then
           (case is_broken mp (each_row ! (index + k)) of
              Inl e \<Rightarrow> Inl e
            | Inr fix \<Rightarrow>
                (if fix then Inr True else scan_group mp each_row index groupsz' (k + 1)))
         else Inl OutOfBounds)
      else Inr False)"
  by pat_completeness auto
termination
  by (relation "measure (\<lambda>(mp, each_row, index, groupsz', k). groupsz' - k)") auto

declare scan_group.simps [simp del]

text \<open>
  The search for a spare, entered with \<open>spareIndex < ndevs\<close>:
  \<^verbatim>\<open>while (is_broken(map, each_row[spareIndex])) { spareIndex++; assert(spareIndex < ndevs); }\<close>
\<close>

function skip_broken :: "map_t \<Rightarrow> nat list \<Rightarrow> nat \<Rightarrow> error + nat" where
  "skip_broken mp each_row spareIndex =
     (if spareIndex < length each_row then
        (case is_broken mp (each_row ! spareIndex) of
           Inl e \<Rightarrow> Inl e
         | Inr b \<Rightarrow>
             (if b then
                (if spareIndex + 1 < ndevs mp then skip_broken mp each_row (spareIndex + 1)
                 else Inl AssertionFailed)
              else Inr spareIndex))
      else Inl OutOfBounds)"
  by pat_completeness auto
termination
  by (relation "measure (\<lambda>(mp, each_row, spareIndex). ndevs mp - spareIndex)") auto

declare skip_broken.simps [simp del]

text \<open>
  A group with a failure (lines 180 to 196): the cursor \<open>spareIndex\<close> is declared here,
  inside the loop over the groups, and starts at \<open>ndevs - nspares\<close>; then every slot of the
  group is read, or written to the next spare that is not broken. With more spares than
  devices the cursor starts below zero and the first access through it is outside the row.
  The function returns the cursor with the counters.
\<close>

definition resilver_group ::
  "map_t \<Rightarrow> nat list \<Rightarrow> nat \<Rightarrow> nat \<Rightarrow> nat list \<times> nat list \<Rightarrow> error + nat \<times> nat list \<times> nat list" where
  "resilver_group mp each_row index groupsz' rw =
     for_loop 0 groupsz' (\<lambda>k (spareIndex, reads, writes).
       if index + k < length each_row then
         (let dev = each_row ! (index + k)
          in (case is_broken mp dev of
                Inl e \<Rightarrow> Inl e
              | Inr b \<Rightarrow>
                  (if \<not> b then
                     (if dev < length reads then
                        Inr (spareIndex, reads[dev := reads ! dev + 1], writes)
                      else Inl OutOfBounds)
                   else if ndevs mp < nspares mp then Inl OutOfBounds
                   else if \<not> spareIndex < ndevs mp then Inl AssertionFailed
                   else
                     (case skip_broken mp each_row spareIndex of
                        Inl e \<Rightarrow> Inl e
                      | Inr spareIndex' \<Rightarrow>
                          (if each_row ! spareIndex' < length writes then
                             Inr (spareIndex' + 1, reads,
                                  writes[each_row ! spareIndex' :=
                                    writes ! (each_row ! spareIndex') + 1])
                           else Inl OutOfBounds)))))
       else Inl OutOfBounds)
       (ndevs mp - nspares mp, fst rw, snd rw)"

text \<open>
  The loop over the groups of a row (lines 167 to 198), from \<open>index = 0\<close>. A group size
  that is not positive runs neither loop over the slots and only moves \<open>index\<close>; with a
  positive group size the first slot read is \<^verbatim>\<open>each_row[index]\<close>, outside the row when
  \<open>index\<close> is negative.
\<close>

definition resilver_row ::
  "map_t \<Rightarrow> nat list \<Rightarrow> nat list \<times> nat list \<Rightarrow> error + int \<times> nat list \<times> nat list" where
  "resilver_row mp each_row rw =
     for_loop 0 (ngroups mp) (\<lambda>j (index, reads, writes).
       if j < length (groupsz mp) then
         (let groupsz' = groupsz mp ! j
          in if groupsz' \<le> 0 then Inr (index + groupsz', reads, writes)
             else if index < 0 then Inl OutOfBounds
             else
               (case scan_group mp each_row (nat index) (nat groupsz') 0 of
                  Inl e \<Rightarrow> Inl e
                | Inr fix \<Rightarrow>
                    (if \<not> fix then Inr (index + groupsz', reads, writes)
                     else
                       (case resilver_group mp each_row (nat index) (nat groupsz')
                               (reads, writes) of
                          Inl e \<Rightarrow> Inl e
                        | Inr (spareIndex, reads', writes') \<Rightarrow>
                            Inr (index + groupsz', reads', writes')))))
       else Inl OutOfBounds)
       (0, fst rw, snd rw)"

text \<open>The loop over the rows (lines 164 to 199).\<close>

definition resilver_rows :: "map_t \<Rightarrow> nat list \<times> nat list \<Rightarrow> error + nat list \<times> nat list" where
  "resilver_rows mp =
     for_loop 0 (nrows mp) (\<lambda>i (reads, writes).
       if i < length (rows mp) then
         (case resilver_row mp (rows mp ! i) (reads, writes) of
            Inl e \<Rightarrow> Inl e
          | Inr (index, reads', writes') \<Rightarrow> Inr (reads', writes'))
       else Inl OutOfBounds)"

text \<open>The drive with most I/O (lines 202 to 212): \<open>(max_read, max_write, max_ios)\<close>.\<close>

definition most_io :: "nat \<Rightarrow> nat list \<Rightarrow> nat list \<Rightarrow> error + nat \<times> nat \<times> nat" where
  "most_io ndevs' reads writes =
     for_loop 0 ndevs' (\<lambda>i (max_read, max_write, max_ios).
       Inr (if reads ! i > max_read then reads ! i else max_read,
            if writes ! i > max_write then writes ! i else max_write,
            if reads ! i + writes ! i > max_ios then reads ! i + writes ! i else max_ios))
       (0, 0, 0)"

definition eval_resilver :: "map_t \<Rightarrow> error + nat" where
  "eval_resilver mp =
     (case resilver_rows mp (replicate (ndevs mp) 0, replicate (ndevs mp) 0) of
        Inl e \<Rightarrow> Inl e
      | Inr (reads, writes) \<Rightarrow>
          (case most_io (ndevs mp) reads writes of
             Inl e \<Rightarrow> Inl e
           | Inr (max_read, max_write, max_ios) \<Rightarrow> Inr max_ios))"

subsection \<open>\<^verbatim>\<open>eval_decluster\<close>\<close>

text \<open>
  The result is a \<^verbatim>\<open>double\<close>. The model keeps the expression that computes it, from the
  integers converted to \<^verbatim>\<open>double\<close> and the operations of the source, and says nothing
  about rounding.
\<close>

datatype dbl = DInt int | DDiv dbl dbl | DMul dbl dbl | DSqrt dbl

text \<open>
  The accumulation after each evaluation, on \<open>(sum, sumsq, max_ios, iter_num)\<close> (\<open>sum\<close> is \<open>sum_v\<close> here):
  \<^verbatim>\<open>iter_num++; sum += ios; sumsq += ios*ios; if (max_ios < ios) max_ios = ios;\<close>
  The variables \<^verbatim>\<open>worst1\<close> and \<^verbatim>\<open>worst2\<close> are assigned and never read; they are left out.
\<close>

definition tally :: "nat \<Rightarrow> nat \<times> nat \<times> nat \<times> nat \<Rightarrow> error + nat \<times> nat \<times> nat \<times> nat" where
  "tally ios acc =
     (case acc of (sum_v, sumsq, max_ios, iter_num) \<Rightarrow>
        if int (sum_v + ios) > INT_MAX \<or> int (ios * ios) > INT_MAX \<or>
           int (sumsq + ios * ios) > INT_MAX
        then Inl SignedOverflow
        else Inr (sum_v + ios, sumsq + ios * ios,
                  if max_ios < ios then ios else max_ios, iter_num + 1))"

text \<open>The loop over \<open>f2\<close> (lines 256 to 268).\<close>

definition eval_pairs ::
  "nat \<Rightarrow> map_t \<times> nat \<times> nat \<times> nat \<times> nat \<Rightarrow> error + map_t \<times> nat \<times> nat \<times> nat \<times> nat" where
  "eval_pairs f1 s =
     for_loop (f1 + 1) (ndevs (fst s)) (\<lambda>f2 (mp, acc).
       if 1 < length (broken mp) then
         (let mp' = mp\<lparr>broken := (broken mp)[1 := Some f2]\<rparr>
          in (case eval_resilver mp' of
                Inl e \<Rightarrow> Inl e
              | Inr ios \<Rightarrow>
                  (case tally ios acc of
                     Inl e \<Rightarrow> Inl e
                   | Inr acc' \<Rightarrow> Inr (mp', acc'))))
       else Inl OutOfBounds) s"

text \<open>The loop over \<open>f1\<close> (lines 241 to 271).\<close>

definition eval_faults ::
  "nat \<Rightarrow> map_t \<times> nat \<times> nat \<times> nat \<times> nat \<Rightarrow> error + map_t \<times> nat \<times> nat \<times> nat \<times> nat" where
  "eval_faults faults s =
     for_loop 0 (ndevs (fst s)) (\<lambda>f1 (mp, acc).
       if 0 < length (broken mp) then
         (let mp' = mp\<lparr>broken := (broken mp)[0 := Some f1]\<rparr>
          in if faults < 2 then
               (case eval_resilver mp' of
                  Inl e \<Rightarrow> Inl e
                | Inr ios \<Rightarrow>
                    (case tally ios acc of
                       Inl e \<Rightarrow> Inl e
                     | Inr acc' \<Rightarrow> Inr (mp', acc')))
             else eval_pairs f1 (mp', acc))
       else Inl OutOfBounds) s"

definition eval_decluster :: "map_t \<Rightarrow> int \<Rightarrow> nat \<Rightarrow> error + map_t \<times> dbl" where
  "eval_decluster mp how faults =
     (case eval_faults faults (mp\<lparr>nbroken := faults\<rparr>, 0, 0, 0, 0) of
        Inl e \<Rightarrow> Inl e
      | Inr (mp', sum_v, sumsq, max_ios, iter_num) \<Rightarrow>
          (let mp'' = mp'\<lparr>nbroken := 0\<rparr>
           in (case (if how = EVAL_WORST then Inr (DInt (int max_ios))
                     else if how = EVAL_MEAN then
                       Inr (DDiv (DInt (int sum_v)) (DInt (int iter_num)))
                     else if how = EVAL_RMS then
                       Inr (DSqrt (DDiv (DInt (int sumsq)) (DInt (int iter_num))))
                     else Inl AssertionFailed) of
                 Inl e \<Rightarrow> Inl e
               | Inr val \<Rightarrow>
                   Inr (mp'', DMul (DDiv val (DInt (int (nrows mp''))))
                                   (DInt (int (ngroups mp'')))))))"

subsection \<open>Small maps\<close>

text \<open>
  Three devices, one group of two and one spare; and six devices, two groups of two and two
  spares. Both have the identity row only.
\<close>

definition map_3 :: map_t where
  "map_3 = \<lparr>ndevs = 3, ngroups = 1, groupsz = [2], nspares = 1, nrows = 1,
            rows = [[0, 1, 2]], nbroken = 0, broken = [None]\<rparr>"

definition map_6 :: map_t where
  "map_6 = \<lparr>ndevs = 6, ngroups = 2, groupsz = [2, 2], nspares = 2, nrows = 1,
            rows = [[0, 1, 2, 3, 4, 5]], nbroken = 0, broken = [None, None]\<rparr>"

subsection \<open>The invariant of the exchange sort\<close>

text \<open>Every slot before \<open>i\<close> holds a tag that no later slot undercuts.\<close>

definition settled :: "nat \<Rightarrow> nat \<Rightarrow> pair_t list \<Rightarrow> bool" where
  "settled i n t \<longleftrightarrow> (\<forall>a<i. \<forall>b<n. a < b \<longrightarrow> snd (t ! a) \<le> snd (t ! b))"

subsection \<open>The invariant of the row loop of \<^verbatim>\<open>new_map\<close>\<close>

text \<open>
  The number of draws that \<open>i\<close> rounds of the row loop make: none for the identity row,
  none when \<open>ndevs = 2\<close>, and \<open>ndevs\<close> for every other row.
\<close>

definition row_draws :: "nat \<Rightarrow> nat \<Rightarrow> nat" where
  "row_draws n i = (if n = 2 then 0 else (i - 1) * n)"

text \<open>
  After \<open>i\<close> rounds from the generator state \<open>g\<close>: \<open>i\<close> rows, each a permutation of the
  device ids, the first the identity, each later one made by \<^verbatim>\<open>permute_devs\<close> from the row
  before; the generator is in the state that the draws of these rounds leave.
\<close>

definition rows_ok :: "nat \<Rightarrow> rng \<Rightarrow> nat \<Rightarrow> nat list list \<times> rng \<Rightarrow> bool" where
  "rows_ok n g i s \<longleftrightarrow>
     length (fst s) = i \<and>
     (\<forall>r<i. mset (fst s ! r) = mset [0..<n]) \<and>
     (0 < i \<longrightarrow> fst s ! 0 = [0..<n]) \<and>
     (\<forall>r. 0 < r \<and> r < i \<longrightarrow>
        (\<exists>gr gr'. permute_devs (fst s ! (r - 1)) (replicate n 0) n gr = Inr (fst s ! r, gr'))) \<and>
     snd s = snd (draw_tags (row_draws n i) g)"

subsection \<open>The developed rows of the specification\<close>

text \<open>
  The specification's DevelopedMap: \<open>nrows * ndevs\<close> rows; for each base row \<open>r\<close> and
  shift \<open>s\<close> below \<open>ndevs\<close>, row \<open>r * ndevs + s\<close> has slot \<open>j\<close> equal to
  \<open>(base.row[r][j] + s) mod ndevs\<close>. Row \<open>i\<close> has base row \<open>i div ndevs\<close> and shift
  \<open>i mod ndevs\<close>.
\<close>

definition developed_slot_spec :: "map_t \<Rightarrow> nat \<Rightarrow> nat \<Rightarrow> nat" where
  "developed_slot_spec bmap i j =
     (rows bmap ! (i div ndevs bmap) ! j + i mod ndevs bmap) mod ndevs bmap"

definition developed_rows_spec :: "map_t \<Rightarrow> nat list list" where
  "developed_rows_spec bmap =
     map (\<lambda>i. map (developed_slot_spec bmap i) [0..<ndevs bmap])
       [0..<nrows bmap * ndevs bmap]"

text \<open>
  The invariant of the loops of \<^verbatim>\<open>develop_map\<close>: the rows before \<open>i0\<close> and the slots
  before \<open>j0\<close> of row \<open>i0\<close> are developed.
\<close>

definition developed_upto :: "map_t \<Rightarrow> nat list list \<Rightarrow> nat \<Rightarrow> nat \<Rightarrow> bool" where
  "developed_upto bmap d i0 j0 \<longleftrightarrow>
     length d = nrows bmap * ndevs bmap \<and>
     (\<forall>i<nrows bmap * ndevs bmap. length (d ! i) = ndevs bmap) \<and>
     (\<forall>i<i0. \<forall>j<ndevs bmap. d ! i ! j = developed_slot_spec bmap i j) \<and>
     (\<forall>j<j0. d ! i0 ! j = developed_slot_spec bmap i0 j)"

text \<open>The base maps of the properties: \<open>nrows\<close> rows of \<open>ndevs\<close> slots each.\<close>

definition base_shape :: "map_t \<Rightarrow> bool" where
  "base_shape bmap \<longleftrightarrow>
     length (rows bmap) = nrows bmap \<and> (\<forall>r<nrows bmap. length (rows bmap ! r) = ndevs bmap)"

text \<open>
  The developed map of the specification: the shape of the base map, \<open>nrows * ndevs\<close>
  rows, the developed rows, nothing broken and no entry of \<open>broken\<close> stored. No generator
  state occurs in it.
\<close>

definition developed_map_spec :: "map_t \<Rightarrow> map_t" where
  "developed_map_spec bmap =
     \<lparr>ndevs = ndevs bmap, ngroups = ngroups bmap,
      groupsz = replicate (ngroups bmap)
        (c_div (int (ndevs bmap) - int (nspares bmap)) (int (ngroups bmap))),
      nspares = nspares bmap, nrows = nrows bmap * ndevs bmap,
      rows = developed_rows_spec bmap, nbroken = 0,
      broken = replicate (nspares bmap) None\<rparr>"

text \<open>Two devices in one group, no spare, two rows.\<close>

definition map_2 :: map_t where
  "map_2 = \<lparr>ndevs = 2, ngroups = 1, groupsz = [2], nspares = 0, nrows = 2,
            rows = [[0, 1], [1, 0]], nbroken = 0, broken = []\<rparr>"

subsection \<open>The evaluation of the specification\<close>








subsection \<open>The parts of a row\<close>

text \<open>
  The devices listed as broken; the devices in the slots of a group that starts at slot
  \<open>index\<close>; the devices in the spare slots of a row, and those of them that are not broken,
  in slot order.
\<close>

definition broken_devs :: "map_t \<Rightarrow> nat set" where
  "broken_devs mp =
     set (concat (map (\<lambda>b. case b of None \<Rightarrow> [] | Some d \<Rightarrow> [d])
                      (take (nbroken mp) (broken mp))))"

definition group_slots :: "nat list \<Rightarrow> nat \<Rightarrow> nat \<Rightarrow> nat list" where
  "group_slots each_row index groupsz' = take groupsz' (drop index each_row)"

definition spare_slots :: "map_t \<Rightarrow> nat list \<Rightarrow> nat list" where
  "spare_slots mp each_row = drop (ndevs mp - nspares mp) each_row"

definition healthy_from :: "map_t \<Rightarrow> nat list \<Rightarrow> nat \<Rightarrow> nat list" where
  "healthy_from mp each_row s = filter (\<lambda>d. d \<notin> broken_devs mp) (drop s each_row)"

definition healthy_spares :: "map_t \<Rightarrow> nat list \<Rightarrow> nat list" where
  "healthy_spares mp each_row = filter (\<lambda>d. d \<notin> broken_devs mp) (spare_slots mp each_row)"

text \<open>The number of broken devices among the first \<open>k\<close> slots of a group.\<close>

definition broken_before :: "map_t \<Rightarrow> nat list \<Rightarrow> nat \<Rightarrow> nat \<Rightarrow> nat" where
  "broken_before mp each_row index k =
     length (filter (\<lambda>d. d \<in> broken_devs mp) (group_slots each_row index k))"

text \<open>
  The invariant of the loop over the slots of a group with a failure, after \<open>k\<close> slots and
  from the counters \<open>reads0\<close> and \<open>writes0\<close>: every healthy slot passed was read once, every
  broken slot passed was written once, to the healthy spares in slot order; the cursor
  stands behind the last spare written.
\<close>

definition rebuilt_upto ::
  "map_t \<Rightarrow> nat list \<Rightarrow> nat \<Rightarrow> nat list \<Rightarrow> nat list \<Rightarrow> nat \<Rightarrow> nat \<times> nat list \<times> nat list \<Rightarrow> bool" where
  "rebuilt_upto mp each_row index reads0 writes0 k s \<longleftrightarrow>
     (case s of (spareIndex, reads, writes) \<Rightarrow>
        spareIndex \<le> ndevs mp \<and> length reads = ndevs mp \<and> length writes = ndevs mp \<and>
        (\<forall>d<ndevs mp. reads ! d = reads0 ! d +
           count_list (filter (\<lambda>d. d \<notin> broken_devs mp) (group_slots each_row index k)) d) \<and>
        (\<forall>d<ndevs mp. writes ! d = writes0 ! d +
           count_list (take (broken_before mp each_row index k) (healthy_spares mp each_row)) d) \<and>
        healthy_from mp each_row spareIndex =
          drop (broken_before mp each_row index k) (healthy_spares mp each_row))"

subsection \<open>Maps that can be evaluated\<close>

text \<open>
  The shape of a map: the rows are permutations of the device ids, the group sizes are not
  negative and the groups lie before the spare slots.
\<close>

definition map_shape :: "map_t \<Rightarrow> bool" where
  "map_shape mp \<longleftrightarrow>
     length (rows mp) = nrows mp \<and>
     (\<forall>row\<in>set (rows mp). length row = ndevs mp \<and> distinct row \<and> (\<forall>d\<in>set row. d < ndevs mp)) \<and>
     length (groupsz mp) = ngroups mp \<and>
     (\<forall>gs\<in>set (groupsz mp). 0 \<le> gs) \<and>
     sum_list (groupsz mp) \<le> int (ndevs mp) - int (nspares mp) \<and>
     nspares mp \<le> ndevs mp"

text \<open>The listed failures are entries of \<open>broken\<close> that were stored.\<close>

definition listed_ok :: "map_t \<Rightarrow> bool" where
  "listed_ok mp \<longleftrightarrow>
     nbroken mp \<le> length (broken mp) \<and> None \<notin> set (take (nbroken mp) (broken mp))"

text \<open>A map with its failures listed, and the failures fit within the spares.\<close>

definition map_ok :: "map_t \<Rightarrow> bool" where
  "map_ok mp \<longleftrightarrow> map_shape mp \<and> listed_ok mp \<and> nbroken mp \<le> nspares mp"

subsection \<open>The reads and writes of the specification\<close>

text \<open>
  Group \<open>j\<close> of a row starts at the slot behind the groups before it. It has a failure
  when one of its slots holds a broken device.
\<close>

definition group_start :: "map_t \<Rightarrow> nat \<Rightarrow> nat" where
  "group_start mp j = nat (sum_list (take j (groupsz mp)))"

definition group_size :: "map_t \<Rightarrow> nat \<Rightarrow> nat" where
  "group_size mp j = nat (groupsz mp ! j)"

definition group_failed :: "map_t \<Rightarrow> nat list \<Rightarrow> nat \<Rightarrow> bool" where
  "group_failed mp each_row j \<longleftrightarrow>
     (\<exists>d\<in>set (group_slots each_row (group_start mp j) (group_size mp j)). d \<in> broken_devs mp)"

text \<open>
  What group \<open>j\<close> of a row adds to the counters of device \<open>d\<close>: one read when the group
  has a failure and \<open>d\<close> is a healthy device in one of its slots; one write when \<open>d\<close>
  is among the first healthy spares of the row, as many of them as the group has broken
  slots (none in a group without a failure).
\<close>

definition group_reads_spec :: "map_t \<Rightarrow> nat list \<Rightarrow> nat \<Rightarrow> nat \<Rightarrow> nat" where
  "group_reads_spec mp each_row j d =
     (if group_failed mp each_row j \<and>
         d \<in> set (group_slots each_row (group_start mp j) (group_size mp j)) \<and>
         d \<notin> broken_devs mp
      then 1 else 0)"

definition group_writes_spec :: "map_t \<Rightarrow> nat list \<Rightarrow> nat \<Rightarrow> nat \<Rightarrow> nat" where
  "group_writes_spec mp each_row j d =
     (if d \<in> set (take (broken_before mp each_row (group_start mp j) (group_size mp j))
                     (healthy_spares mp each_row))
      then 1 else 0)"

text \<open>The counters of device \<open>d\<close> after the groups before \<open>j\<close> of the rows \<open>rs\<close>.\<close>

definition reads_spec :: "map_t \<Rightarrow> nat list list \<Rightarrow> nat \<Rightarrow> nat \<Rightarrow> nat" where
  "reads_spec mp rs j d =
     sum_list (map (\<lambda>row. sum_list (map (\<lambda>j. group_reads_spec mp row j d) [0..<j])) rs)"

definition writes_spec :: "map_t \<Rightarrow> nat list list \<Rightarrow> nat \<Rightarrow> nat \<Rightarrow> nat" where
  "writes_spec mp rs j d =
     sum_list (map (\<lambda>row. sum_list (map (\<lambda>j. group_writes_spec mp row j d) [0..<j])) rs)"

text \<open>The result of the specification: the largest sum of reads and writes of a device.\<close>

definition max_ios_spec :: "map_t \<Rightarrow> nat" where
  "max_ios_spec mp =
     Max (set (0 # map (\<lambda>d. reads_spec mp (rows mp) (ngroups mp) d +
                             writes_spec mp (rows mp) (ngroups mp) d) [0..<ndevs mp]))"

text \<open>
  The invariant of the loop over the groups of a row, after \<open>j\<close> groups and from the
  counters \<open>reads0\<close> and \<open>writes0\<close>.
\<close>

definition row_upto ::
  "map_t \<Rightarrow> nat list \<Rightarrow> nat list \<Rightarrow> nat list \<Rightarrow> nat \<Rightarrow> int \<times> nat list \<times> nat list \<Rightarrow> bool" where
  "row_upto mp each_row reads0 writes0 j s \<longleftrightarrow>
     (case s of (index, reads, writes) \<Rightarrow>
        index = sum_list (take j (groupsz mp)) \<and>
        length reads = ndevs mp \<and> length writes = ndevs mp \<and>
        (\<forall>d<ndevs mp. reads ! d = reads0 ! d + reads_spec mp [each_row] j d) \<and>
        (\<forall>d<ndevs mp. writes ! d = writes0 ! d + writes_spec mp [each_row] j d))"

text \<open>The invariant of the loop over the rows, after the rows \<open>rs\<close>.\<close>

definition rows_upto :: "map_t \<Rightarrow> nat list list \<Rightarrow> nat list \<times> nat list \<Rightarrow> bool" where
  "rows_upto mp rs s \<longleftrightarrow>
     (case s of (reads, writes) \<Rightarrow>
        length reads = ndevs mp \<and> length writes = ndevs mp \<and>
        (\<forall>d<ndevs mp. reads ! d = reads_spec mp rs (ngroups mp) d) \<and>
        (\<forall>d<ndevs mp. writes ! d = writes_spec mp rs (ngroups mp) d))"


section \<open>Properties of the Fletcher kernels\<close>

lemma fletcher_2_loop_bswap:
  "fletcher_2_native_loop (map BSWAP_64 buf) ip ipend s = fletcher_2_byteswap_loop buf ip ipend s"
proof (induction buf ip ipend s rule: fletcher_2_byteswap_loop.induct)
  case (1 buf ip ipend a0 a1 b0 b1)
  show ?case
  proof (cases "ip < ipend \<and> ip + 1 < length buf")
    case True
    then show ?thesis
      using "1.IH" [OF _ _ refl refl refl refl]
      by (subst fletcher_2_native_loop.simps, subst fletcher_2_byteswap_loop.simps)
         (simp add: Let_def)
  next
    case False
    then show ?thesis
      by (subst fletcher_2_native_loop.simps, subst fletcher_2_byteswap_loop.simps) auto
  qed
qed

lemma fletcher_4_loop_bswap:
  "fletcher_4_scalar_loop (map BSWAP_32 buf) ip ipend s = fletcher_4_scalar_byteswap_loop buf ip ipend s"
proof (induction buf ip ipend s rule: fletcher_4_scalar_byteswap_loop.induct)
  case (1 buf ip ipend a b c d)
  show ?case
  proof (cases "ip < ipend \<and> ip < length buf")
    case True
    then show ?thesis
      using "1.IH" [OF _ _ refl refl refl refl]
      by (subst fletcher_4_scalar_loop.simps, subst fletcher_4_scalar_byteswap_loop.simps)
         (simp add: Let_def)
  next
    case False
    then show ?thesis
      by (subst fletcher_4_scalar_loop.simps, subst fletcher_4_scalar_byteswap_loop.simps) auto
  qed
qed

lemma fletcher_4_loop_split:
  "ip \<le> mid \<Longrightarrow> mid \<le> ipend \<Longrightarrow>
   fletcher_4_scalar_loop buf ip ipend s =
     Option.bind (fletcher_4_scalar_loop buf ip mid s) (fletcher_4_scalar_loop buf mid ipend)"
proof (induction buf ip mid s rule: fletcher_4_scalar_loop.induct)
  case (1 buf ip mid a b c d)
  show ?case
  proof (cases "ip < mid")
    case True
    show ?thesis
    proof (cases "ip < length buf")
      case inb: True
      have lt: "ip < ipend" using True "1.prems" by simp
      show ?thesis
        using "1.IH" [OF True inb refl refl refl refl] True inb lt "1.prems"
        by (subst fletcher_4_scalar_loop.simps,
            subst (2) fletcher_4_scalar_loop.simps) (simp add: Let_def)
    next
      case False
      then show ?thesis using True "1.prems"
        by (subst fletcher_4_scalar_loop.simps,
            subst (2) fletcher_4_scalar_loop.simps) simp
    qed
  next
    case False
    then have "ip = mid" using "1.prems" by simp
    then show ?thesis
      by (subst (2) fletcher_4_scalar_loop.simps) (simp add: ZIO_SET_CHECKSUM_def)
  qed
qed

lemma fletcher_4_loop_prefix:
  "ipend \<le> length xs \<Longrightarrow>
   fletcher_4_scalar_loop (xs @ ys) ip ipend s = fletcher_4_scalar_loop xs ip ipend s"
proof (induction xs ip ipend s rule: fletcher_4_scalar_loop.induct)
  case (1 xs ip ipend a b c d)
  show ?case
  proof (cases "ip < ipend")
    case True
    then have inb: "ip < length xs" using "1.prems" by simp
    show ?thesis
      using "1.IH" [OF True inb refl refl refl refl] True inb "1.prems"
      by (subst fletcher_4_scalar_loop.simps,
          subst (2) fletcher_4_scalar_loop.simps) (simp add: Let_def nth_append)
  next
    case False
    then show ?thesis
      by (subst fletcher_4_scalar_loop.simps,
          subst (2) fletcher_4_scalar_loop.simps) simp
  qed
qed

lemma fletcher_4_loop_shift:
  "fletcher_4_scalar_loop (xs @ ys) (length xs + ip) (length xs + ipend) s =
   fletcher_4_scalar_loop ys ip ipend s"
proof (induction ys ip ipend s rule: fletcher_4_scalar_loop.induct)
  case (1 ys ip ipend a b c d)
  show ?case
  proof (cases "ip < ipend \<and> ip < length ys")
    case True
    show ?thesis
      using "1.IH" [OF _ _ refl refl refl refl] True
      by (subst fletcher_4_scalar_loop.simps,
          subst (2) fletcher_4_scalar_loop.simps) (simp add: Let_def nth_append)
  next
    case False
    then show ?thesis
      by (subst fletcher_4_scalar_loop.simps,
          subst (2) fletcher_4_scalar_loop.simps) auto
  qed
qed

lemma fletcher_4_loop_total:
  "ipend \<le> length buf \<Longrightarrow> \<exists>r. fletcher_4_scalar_loop buf ip ipend s = Some r"
proof (induction buf ip ipend s rule: fletcher_4_scalar_loop.induct)
  case (1 buf ip ipend a b c d)
  show ?case
  proof (cases "ip < ipend")
    case True
    then have inb: "ip < length buf" using "1.prems" by simp
    show ?thesis
      using "1.IH" [OF True inb refl refl refl refl] True inb "1.prems"
      by (subst fletcher_4_scalar_loop.simps) (simp add: Let_def)
  next
    case False
    then show ?thesis
      by (subst fletcher_4_scalar_loop.simps) (simp add: ZIO_SET_CHECKSUM_def)
  qed
qed

lemma unat_ucast_32_64: "unat (ucast (w :: uint32_t) :: uint64_t) = unat w"
  by (simp add: unsigned_ucast_eq take_bit_nat_eq_self_iff)
     (rule order_less_trans [OF unsigned_less], simp)

lemma unat_acc_add: "unat ((a :: uint64_t) + ucast (w :: uint32_t)) = (unat a + unat w) mod 2 ^ 64"
  by (simp add: unat_word_ariths unat_ucast_32_64)

lemma unat_acc_add2: "unat ((a :: uint64_t) + b) = (unat a + unat b) mod 2 ^ 64"
  by (simp add: unat_word_ariths)

lemma fletcher_4_loop_spec:
  "ipend = length buf \<Longrightarrow> ip \<le> ipend \<Longrightarrow>
   \<exists>a' b' c' d'. fletcher_4_scalar_loop buf ip ipend (a, b, c, d) = Some (a', b', c', d') \<and>
     (unat a', unat b', unat c', unat d') =
       fletcher4_spec (map unat (drop ip buf)) (unat a, unat b, unat c, unat d)"
proof (induction buf ip ipend "(a, b, c, d)" arbitrary: a b c d rule: fletcher_4_scalar_loop.induct)
  case (1 buf ip ipend a b c d)
  show ?case
  proof (cases "ip < ipend")
    case True
    then have inb: "ip < length buf" using "1.prems" by simp
    have dr: "drop ip buf = buf ! ip # drop (ip + 1) buf"
      using inb by (simp add: Cons_nth_drop_Suc)
    from "1.hyps" [OF True inb refl refl refl refl] "1.prems" True
    obtain a' b' c' d' where
      "fletcher_4_scalar_loop buf (ip + 1) ipend
         (a + ucast (buf ! ip), b + (a + ucast (buf ! ip)),
          c + (b + (a + ucast (buf ! ip))), d + (c + (b + (a + ucast (buf ! ip))))) =
       Some (a', b', c', d')"
      and "(unat a', unat b', unat c', unat d') =
        fletcher4_spec (map unat (drop (ip + 1) buf))
          (unat (a + ucast (buf ! ip)), unat (b + (a + ucast (buf ! ip))),
           unat (c + (b + (a + ucast (buf ! ip)))), unat (d + (c + (b + (a + ucast (buf ! ip))))))"
      by auto
    then show ?thesis
      using True inb
      by (subst fletcher_4_scalar_loop.simps)
         (simp add: Let_def dr fletcher4_spec_step_def unat_acc_add unat_acc_add2
            unat_ucast_32_64)
  next
    case False
    then show ?thesis using "1.prems"
      by (subst fletcher_4_scalar_loop.simps) (simp add: ZIO_SET_CHECKSUM_def)
  qed
qed


text \<open>
  Claim C2. The scalar Fletcher-4 kernel starts from the accumulators \<open>(a, b, c, d)\<close> of
  the caller's state, reads the buffer as 32-bit words and performs, for each word \<open>w\<close>,
  \<open>a += w; b += a; c += b; d += c\<close> modulo \<open>2 ^ 64\<close>; the four accumulators are the
  fingerprint it writes back. From the zero state, the words \<open>[1, 2, 3, 4]\<close> give
  \<open>a = 10\<close>, \<open>b = 20\<close>, \<open>c = 35\<close>, \<open>d = 56\<close>.
\<close>

theorem fletcher_4_scalar_recurrence:
  assumes "unat sz = 4 * length buf"
  shows "(\<exists>a' b' c' d'.
           fletcher_4_scalar buf sz (a, b, c, d) = Some (a', b', c', d') \<and>
           (unat a', unat b', unat c', unat d') =
             fletcher4_spec (map unat buf) (unat a, unat b, unat c, unat d)) \<and>
         fletcher_4_scalar [1, 2, 3, 4] 16 (fletcher_4_scalar_init z) = Some (10, 20, 35, 56)"
proof
  have n: "unat (sz div 4) = length buf"
    using assms by (simp add: unat_div)
  show "\<exists>a' b' c' d'.
           fletcher_4_scalar buf sz (a, b, c, d) = Some (a', b', c', d') \<and>
           (unat a', unat b', unat c', unat d') =
             fletcher4_spec (map unat buf) (unat a, unat b, unat c, unat d)"
    using fletcher_4_loop_spec [of "length buf" buf 0 a b c d]
    by (simp add: fletcher_4_scalar_def n)
  show "fletcher_4_scalar [1, 2, 3, 4] 16 (fletcher_4_scalar_init z) = Some (10, 20, 35, 56)"
    by (simp add: fletcher_4_scalar_def fletcher_4_scalar_init_def ZIO_SET_CHECKSUM_def
        fletcher_4_scalar_loop.simps)
qed

theorem fletcher_4_scalar_recurrence_witness:
  "unat (8 :: uint64_t) = 4 * length [0xffffffff, 5 :: uint32_t] \<and>
   fletcher_4_scalar [0xffffffff, 5] 8 (0xffffffffffffffff, 1, 2, 3) =
     Some (0x100000003, 0x200000002, 0x300000003, 0x400000007) \<and>
   fletcher4_spec (map unat [0xffffffff, 5 :: uint32_t])
       (unat (0xffffffffffffffff :: uint64_t), unat (1 :: uint64_t), unat (2 :: uint64_t),
        unat (3 :: uint64_t)) =
     (0x100000003, 0x200000002, 0x300000003, 0x400000007)"
proof -
  have h: "unat (8 :: uint64_t) = 4 * length [0xffffffff, 5 :: uint32_t]" by simp
  have s: "fletcher4_spec (map unat [0xffffffff, 5 :: uint32_t])
       (unat (0xffffffffffffffff :: uint64_t), unat (1 :: uint64_t), unat (2 :: uint64_t),
        unat (3 :: uint64_t)) =
     (0x100000003, 0x200000002, 0x300000003, 0x400000007)"
    by (simp add: fletcher4_spec_step_def)
  from fletcher_4_scalar_recurrence [OF h, of "0xffffffffffffffff" 1 2 3]
  obtain a' b' c' d' where
    r: "fletcher_4_scalar [0xffffffff, 5] 8 (0xffffffffffffffff, 1, 2, 3) = Some (a', b', c', d')"
    and u: "(unat a', unat b', unat c', unat d') =
       fletcher4_spec (map unat [0xffffffff, 5 :: uint32_t])
       (unat (0xffffffffffffffff :: uint64_t), unat (1 :: uint64_t), unat (2 :: uint64_t),
        unat (3 :: uint64_t))"
    by blast
  from u s have "unat a' = 0x100000003" "unat b' = 0x200000002"
    "unat c' = 0x300000003" "unat d' = 0x400000007"
    by simp_all
  then have "a' = 0x100000003" "b' = 0x200000002" "c' = 0x300000003" "d' = 0x400000007"
    by (simp_all add: word_unat_eq_iff)
  with r h s show ?thesis by simp
qed

text \<open>
  Claim C7. For a buffer split on a 4-byte boundary into \<open>buf1\<close> followed by \<open>buf2\<close>,
  initialising the state and running the incremental entry point over \<open>buf1\<close> and then
  over \<open>buf2\<close> gives the fingerprint that initialising and running the scalar kernel
  once over the whole buffer gives; both runs return a fingerprint.
\<close>

theorem fletcher_4_incremental_split:
  assumes "unat size1 = 4 * length buf1"
    and "unat size2 = 4 * length buf2"
    and "unat sz = 4 * length (buf1 @ buf2)"
  shows "Option.bind (fletcher_4_incremental_native buf1 size1 (fletcher_4_scalar_init z))
           (fletcher_4_incremental_native buf2 size2) =
         fletcher_4_scalar (buf1 @ buf2) sz (fletcher_4_scalar_init z) \<and>
         fletcher_4_scalar (buf1 @ buf2) sz (fletcher_4_scalar_init z) \<noteq> None"
proof -
  let ?s = "fletcher_4_scalar_init z"
  have n1: "unat (size1 div 4) = length buf1"
    and n2: "unat (size2 div 4) = length buf2"
    and n: "unat (sz div 4) = length buf1 + length buf2"
    using assms by (simp_all add: unat_div)
  have whole: "fletcher_4_scalar_loop (buf1 @ buf2) 0 (length buf1 + length buf2) ?s =
      Option.bind (fletcher_4_scalar_loop (buf1 @ buf2) 0 (length buf1) ?s)
        (fletcher_4_scalar_loop (buf1 @ buf2) (length buf1) (length buf1 + length buf2))"
    by (rule fletcher_4_loop_split) simp_all
  have first: "fletcher_4_scalar_loop (buf1 @ buf2) 0 (length buf1) ?s =
      fletcher_4_scalar_loop buf1 0 (length buf1) ?s"
    by (rule fletcher_4_loop_prefix) simp
  have second: "fletcher_4_scalar_loop (buf1 @ buf2) (length buf1) (length buf1 + length buf2) =
      fletcher_4_scalar_loop buf2 0 (length buf2)"
    using fletcher_4_loop_shift [of buf1 buf2 0 "length buf2"] by (intro ext) simp
  have eq: "Option.bind (fletcher_4_incremental_native buf1 size1 ?s)
           (fletcher_4_incremental_native buf2 size2) =
         fletcher_4_scalar (buf1 @ buf2) sz ?s"
    unfolding fletcher_4_incremental_native_def fletcher_4_scalar_def n1 n2 n whole first second
    by (rule arg_cong [where f = "Option.bind _"]) (simp add: fletcher_4_scalar_def n2)
  obtain r where "fletcher_4_scalar_loop (buf1 @ buf2) 0 (length buf1 + length buf2) ?s = Some r"
    using fletcher_4_loop_total [of "length buf1 + length buf2" "buf1 @ buf2" 0 ?s] by auto
  then have "fletcher_4_scalar (buf1 @ buf2) sz ?s \<noteq> None"
    by (simp add: fletcher_4_scalar_def n)
  with eq show ?thesis by simp
qed

theorem fletcher_4_incremental_split_witness:
  "unat (4 :: uint64_t) = 4 * length [7 :: uint32_t] \<and>
   unat (8 :: uint64_t) = 4 * length [8, 9 :: uint32_t] \<and>
   unat (12 :: uint64_t) = 4 * length ([7] @ [8, 9 :: uint32_t]) \<and>
   Option.bind (fletcher_4_incremental_native [7] 4 (fletcher_4_scalar_init (1, 2, 3, 4)))
       (fletcher_4_incremental_native [8, 9] 8) =
     fletcher_4_scalar ([7] @ [8, 9]) 12 (fletcher_4_scalar_init (1, 2, 3, 4)) \<and>
   fletcher_4_scalar ([7] @ [8, 9]) 12 (fletcher_4_scalar_init (1, 2, 3, 4)) \<noteq> None"
proof -
  have h1: "unat (4 :: uint64_t) = 4 * length [7 :: uint32_t]" by simp
  have h2: "unat (8 :: uint64_t) = 4 * length [8, 9 :: uint32_t]" by simp
  have h3: "unat (12 :: uint64_t) = 4 * length ([7] @ [8, 9 :: uint32_t])" by simp
  show ?thesis
    using fletcher_4_incremental_split [OF h1 h2 h3, of "(1, 2, 3, 4)"] h1 h2 h3 by blast
qed

text \<open>
  Claim C8. The native checksum of the word-wise byte-reversed buffer is the byteswap
  checksum of the buffer: for Fletcher-2 over 64-bit words, and for the scalar Fletcher-4
  kernel over 32-bit words from the same initial state.
\<close>

theorem fletcher_byteswap_native:
  "fletcher_2_native (map BSWAP_64 buf) sz = fletcher_2_byteswap buf sz \<and>
   fletcher_4_scalar (map BSWAP_32 buf4) sz4 zcp = fletcher_4_scalar_byteswap buf4 sz4 zcp"
  by (simp add: fletcher_2_native_def fletcher_2_byteswap_def fletcher_2_loop_bswap
      fletcher_4_scalar_def fletcher_4_scalar_byteswap_def fletcher_4_loop_bswap)

theorem fletcher_byteswap_native_witness:
  "fletcher_2_native (map BSWAP_64 [0x0100000000000000, 0x0200000000000000]) 16 =
     Some (1, 2, 1, 2) \<and>
   fletcher_2_byteswap [0x0100000000000000, 0x0200000000000000] 16 = Some (1, 2, 1, 2) \<and>
   fletcher_4_scalar_byteswap [0x01000000, 0x02000000] 8 (0, 0, 0, 0) = Some (3, 4, 5, 6) \<and>
   fletcher_4_scalar (map BSWAP_32 [0x01000000, 0x02000000]) 8 (0, 0, 0, 0) = Some (3, 4, 5, 6)"
proof -
  have bs: "BSWAP_64 0x0100000000000000 = 1" "BSWAP_64 0x0200000000000000 = 2"
    "BSWAP_32 0x01000000 = 1" "BSWAP_32 0x02000000 = 2"
    by (simp_all add: BSWAP_64_def BSWAP_32w_def BSWAP_32_def BSWAP_16_def BSWAP_8_def)
  have a: "fletcher_2_native (map BSWAP_64 [0x0100000000000000, 0x0200000000000000]) 16 =
     Some (1, 2, 1, 2)"
    by (simp add: bs fletcher_2_native_def fletcher_2_native_loop.simps ZIO_SET_CHECKSUM_def)
  have b: "fletcher_4_scalar (map BSWAP_32 [0x01000000, 0x02000000]) 8 (0, 0, 0, 0) =
     Some (3, 4, 5, 6)"
    by (simp add: bs fletcher_4_scalar_def fletcher_4_scalar_loop.simps ZIO_SET_CHECKSUM_def)
  from a b fletcher_byteswap_native [of "[0x0100000000000000, 0x0200000000000000]" 16
      "[0x01000000, 0x02000000]" 8 "(0, 0, 0, 0)"]
  show ?thesis by simp
qed

section \<open>Rules for counted loops\<close>

lemma for_loop_empty: "hi \<le> lo \<Longrightarrow> for_loop lo hi body s = Inr s"
  by (subst for_loop.simps) simp

lemma for_loop_step:
  "lo < hi \<Longrightarrow> for_loop lo hi body s =
     (case body lo s of Inl e \<Rightarrow> Inl e | Inr s' \<Rightarrow> for_loop (Suc lo) hi body s')"
  by (subst for_loop.simps) (simp split: sum.split)

text \<open>Total correctness: every round returns and keeps the invariant.\<close>

lemma for_loop_total:
  assumes "I lo s" and "lo \<le> hi"
    and "\<And>i s. lo \<le> i \<Longrightarrow> i < hi \<Longrightarrow> I i s \<Longrightarrow> \<exists>s'. body i s = Inr s' \<and> I (Suc i) s'"
  shows "\<exists>s'. for_loop lo hi body s = Inr s' \<and> I hi s'"
  using assms
proof (induction "hi - lo" arbitrary: lo s)
  case 0
  then show ?case by (simp add: for_loop_empty)
next
  case (Suc d)
  then have lt: "lo < hi" by simp
  from Suc.prems(3) [OF order_refl lt Suc.prems(1)]
  obtain s1 where b: "body lo s = Inr s1" and i1: "I (Suc lo) s1" by blast
  have "\<exists>s'. for_loop (Suc lo) hi body s1 = Inr s' \<and> I hi s'"
  proof (rule Suc.hyps(1))
    show "d = hi - Suc lo" using Suc.hyps(2) by simp
    show "I (Suc lo) s1" by (rule i1)
    show "Suc lo \<le> hi" using lt by simp
    show "\<And>i s. Suc lo \<le> i \<Longrightarrow> i < hi \<Longrightarrow> I i s \<Longrightarrow> \<exists>s'. body i s = Inr s' \<and> I (Suc i) s'"
      using Suc.prems(3) by simp
  qed
  then show ?case by (simp add: for_loop_step [OF lt] b)
qed

text \<open>Partial correctness: a loop that returned kept the invariant.\<close>

lemma for_loop_Inr:
  assumes "for_loop lo hi body s = Inr s'" and "I lo s" and "lo \<le> hi"
    and "\<And>i s s'. lo \<le> i \<Longrightarrow> i < hi \<Longrightarrow> I i s \<Longrightarrow> body i s = Inr s' \<Longrightarrow> I (Suc i) s'"
  shows "I hi s'"
  using assms
proof (induction "hi - lo" arbitrary: lo s)
  case 0
  then show ?case by (simp add: for_loop_empty)
next
  case (Suc d)
  then have lt: "lo < hi" by simp
  from Suc.prems(1) obtain s1 where b: "body lo s = Inr s1"
    and r: "for_loop (Suc lo) hi body s1 = Inr s'"
    by (auto simp: for_loop_step [OF lt] split: sum.splits)
  have i1: "I (Suc lo) s1"
    by (rule Suc.prems(4) [OF order_refl lt Suc.prems(2) b])
  show ?case
  proof (rule Suc.hyps(1) [OF _ r i1])
    show "d = hi - Suc lo" using Suc.hyps(2) by simp
    show "Suc lo \<le> hi" using lt by simp
    show "\<And>i s s'. Suc lo \<le> i \<Longrightarrow> i < hi \<Longrightarrow> I i s \<Longrightarrow> body i s = Inr s' \<Longrightarrow> I (Suc i) s'"
      using Suc.prems(4) by simp
  qed
qed

text \<open>Facts that evaluate the model on a given map.\<close>

lemma replicate_numeral: "replicate (numeral k) x = x # replicate (pred_numeral k) x"
  by (simp add: numeral_eq_Suc)

lemmas draid_eval =
  eval_decluster_def eval_faults_def eval_pairs_def tally_def eval_resilver_def most_io_def
  resilver_rows_def resilver_row_def resilver_group_def skip_broken.simps scan_group.simps
  is_broken_def is_broken_from.simps for_loop.simps INT_MAX_def EVAL_WORST_def EVAL_MEAN_def
  EVAL_RMS_def Let_def replicate_numeral

section \<open>\<^verbatim>\<open>permute_devs\<close> and \<^verbatim>\<open>new_map\<close>\<close>

lemma take_Suc_update:
  "i < length xs \<Longrightarrow> take (Suc i) (xs[i := x]) = take i xs @ [x]"
  by (simp add: take_Suc_conv_app_nth)

lemma length_draw_tags: "length (fst (draw_tags n g)) = n"
  by (induction n) (auto split: prod.splits)

lemma assign_order_zip:
  assumes "length inp = n"
  shows "assign_order inp n (replicate n (0, 0), g) =
           Inr (zip inp (fst (draw_tags n g)), snd (draw_tags n g))"
proof -
  let ?I = "\<lambda>i (s :: pair_t list \<times> rng). length (fst s) = n \<and>
      take i (fst s) = zip (take i inp) (fst (draw_tags i g)) \<and> snd s = snd (draw_tags i g)"
  have "\<exists>s'. assign_order inp n (replicate n (0, 0), g) = Inr s' \<and> ?I n s'"
    unfolding assign_order_def
  proof (rule for_loop_total [where I = ?I])
    show "?I 0 (replicate n (0, 0), g)" by simp
    show "0 \<le> n" by simp
  next
    fix i and s :: "pair_t list \<times> rng"
    assume lt: "i < n" and inv: "?I i s"
    obtain tmp gi where s: "s = (tmp, gi)" by (cases s)
    obtain r g' where m: "mrand48 gi = (r, g')" by (cases "mrand48 gi")
    have tk: "take (Suc i) inp = take i inp @ [inp ! i]"
      using lt assms by (simp add: take_Suc_conv_app_nth)
    have dt: "draw_tags (Suc i) g = (fst (draw_tags i g) @ [r], g')"
      using inv s m by (cases "draw_tags i g") simp
    have "take (Suc i) (tmp[i := (inp ! i, r)]) =
        zip (take (Suc i) inp) (fst (draw_tags (Suc i) g))"
      using inv s lt assms
      by (simp add: take_Suc_update tk dt length_draw_tags del: draw_tags.simps)
    then show "\<exists>s'. (case s of (tmp, g) \<Rightarrow>
              if i < length inp then
                (case mrand48 g of (r, g') \<Rightarrow> Inr (tmp[i := (inp ! i, r)], g'))
              else Inl OutOfBounds) = Inr s' \<and> ?I (Suc i) s'"
      using s m lt assms inv dt by (simp del: draw_tags.simps)
  qed
  then obtain tmp g' where r: "assign_order inp n (replicate n (0, 0), g) = Inr (tmp, g')"
    and i: "?I n (tmp, g')" by auto
  from i have l: "length tmp = n" by simp
  have "take n tmp = tmp" "take n inp = inp" using l assms by simp_all
  with i have "tmp = zip inp (fst (draw_tags n g))" "g' = snd (draw_tags n g)"
    by (metis fst_conv, simp)
  with r show ?thesis by simp
qed

lemma sort_inner_inv:
  assumes "i < n" and "length t0 = n" and "settled i n t0"
  shows "\<exists>t. sort_inner i n t0 = Inr t \<and> length t = n \<and> mset t = mset t0 \<and> settled (Suc i) n t"
proof -
  let ?I = "\<lambda>j (t :: pair_t list). length t = n \<and> mset t = mset t0 \<and> settled i n t \<and>
      (\<forall>k. i < k \<and> k < j \<longrightarrow> snd (t ! i) \<le> snd (t ! k))"
  have "\<exists>t. sort_inner i n t0 = Inr t \<and> ?I n t"
    unfolding sort_inner_def
  proof (rule for_loop_total [where I = ?I])
    show "?I (i + 1) t0" using assms by auto
    show "i + 1 \<le> n" using assms by simp
  next
    fix j and t :: "pair_t list"
    assume lo: "i + 1 \<le> j" and lt: "j < n" and inv: "?I j t"
    show "\<exists>s'. (if snd (t ! j) < snd (t ! i) then Inr (t[i := t ! j, j := t ! i]) else Inr t) =
          Inr s' \<and> ?I (Suc j) s'"
    proof (cases "snd (t ! j) < snd (t ! i)")
      case False
      have "\<forall>k. i < k \<and> k < Suc j \<longrightarrow> snd (t ! i) \<le> snd (t ! k)"
      proof (intro allI impI)
        fix k assume "i < k \<and> k < Suc j"
        then show "snd (t ! i) \<le> snd (t ! k)"
          using inv False by (cases "k = j") auto
      qed
      with inv False show ?thesis by simp
    next
      case True
      let ?t = "t[i := t ! j, j := t ! i]"
      have ij: "i < j" "i < length t" "j < length t" using lo lt inv by simp_all
      have len: "length ?t = n" using inv by simp
      have ms: "mset ?t = mset t0" using inv mset_swap [of j t i] ij by simp
      have nth: "\<And>k. k < n \<Longrightarrow> ?t ! k = (if k = j then t ! i else if k = i then t ! j else t ! k)"
        using ij inv by (simp add: nth_list_update)
      have st: "settled i n ?t"
        unfolding settled_def
      proof (intro allI impI)
        fix a b assume a: "a < i" and b: "b < n" and ab: "a < b"
        have an: "a < n" using a assms by simp
        have ta: "?t ! a = t ! a" using nth [OF an] a ij by simp
        have "snd (t ! a) \<le> snd (t ! b)" "snd (t ! a) \<le> snd (t ! i)" "snd (t ! a) \<le> snd (t ! j)"
          using inv a b ab ij lt assms unfolding settled_def by auto
        then show "snd (?t ! a) \<le> snd (?t ! b)"
          using nth [OF b] ta by auto
      qed
      have mn: "\<forall>k. i < k \<and> k < Suc j \<longrightarrow> snd (?t ! i) \<le> snd (?t ! k)"
      proof (intro allI impI)
        fix k assume k: "i < k \<and> k < Suc j"
        then have kn: "k < n" using lt by simp
        have ti: "?t ! i = t ! j" using nth [of i] assms ij by simp
        show "snd (?t ! i) \<le> snd (?t ! k)"
        proof (cases "k = j")
          case True
          then show ?thesis using ti nth [OF kn] \<open>snd (t ! j) < snd (t ! i)\<close> by simp
        next
          case False
          then have "snd (t ! i) \<le> snd (t ! k)" using inv k by auto
          then show ?thesis using ti nth [OF kn] False k \<open>snd (t ! j) < snd (t ! i)\<close> by simp
        qed
      qed
      from True len ms st mn show ?thesis by simp
    qed
  qed
  then obtain t where r: "sort_inner i n t0 = Inr t" and i: "?I n t" by auto
  have "settled (Suc i) n t"
    unfolding settled_def
  proof (intro allI impI)
    fix a b assume a: "a < Suc i" and b: "b < n" and ab: "a < b"
    show "snd (t ! a) \<le> snd (t ! b)"
    proof (cases "a = i")
      case True
      then show ?thesis using i b ab by auto
    next
      case False
      then have "a < i" using a by simp
      then show ?thesis using i b ab unfolding settled_def by auto
    qed
  qed
  with r i show ?thesis by auto
qed

lemma sort_order_sorted:
  assumes "length t0 = n"
  shows "\<exists>t. sort_order n t0 = Inr t \<and> length t = n \<and> mset t = mset t0 \<and> sorted (map snd t)"
proof -
  let ?I = "\<lambda>i (t :: pair_t list). length t = n \<and> mset t = mset t0 \<and> settled i n t"
  have "\<exists>t. sort_order n t0 = Inr t \<and> ?I n t"
    unfolding sort_order_def
  proof (rule for_loop_total [where I = ?I])
    show "?I 0 t0" using assms by (simp add: settled_def)
    show "0 \<le> n" by simp
  next
    fix i and t :: "pair_t list"
    assume "i < n" and "?I i t"
    then show "\<exists>s'. sort_inner i n t = Inr s' \<and> ?I (Suc i) s'"
      using sort_inner_inv [of i n t] by auto
  qed
  then obtain t where r: "sort_order n t0 = Inr t" and i: "?I n t" by auto
  have "sorted (map snd t)"
    unfolding sorted_iff_nth_mono_less
  proof (intro allI impI)
    fix a b assume "a < b" and "b < length (map snd t)"
    then show "map snd t ! a \<le> map snd t ! b"
      using i unfolding settled_def by auto
  qed
  with r i show ?thesis by auto
qed

lemma store_out_map:
  assumes "length tmp = n" and "length out = n"
  shows "store_out tmp n out = Inr (map fst tmp)"
proof -
  let ?I = "\<lambda>i (out' :: nat list). length out' = n \<and> take i out' = take i (map fst tmp)"
  have "\<exists>o'. store_out tmp n out = Inr o' \<and> ?I n o'"
    unfolding store_out_def
  proof (rule for_loop_total [where I = ?I])
    show "?I 0 out" using assms by simp
    show "0 \<le> n" by simp
  next
    fix i and o' :: "nat list"
    assume lt: "i < n" and inv: "?I i o'"
    have "take (Suc i) (map fst tmp) = take i (map fst tmp) @ [fst (tmp ! i)]"
      using lt assms by (simp add: take_Suc_conv_app_nth)
    then show "\<exists>s'. Inr (o'[i := fst (tmp ! i)]) = Inr s' \<and> ?I (Suc i) s'"
      using inv lt by (simp add: take_Suc_update)
  qed
  then show ?thesis using assms by auto
qed

lemma permute_devs_two:
  assumes "length inp = 2" and "length out = 2"
  shows "permute_devs inp out 2 g = Inr ([inp ! 1, inp ! 0], g)"
proof -
  from assms(2) obtain x y where "out = [x, y]"
    by (cases out; cases "tl out") auto
  then show ?thesis using assms by (simp add: permute_devs_def)
qed

lemma permute_devs_sort:
  assumes "length inp = n" and "length out = n" and "n \<noteq> 2"
  shows "\<exists>tmp. permute_devs inp out n g = Inr (map fst tmp, snd (draw_tags n g)) \<and>
           mset tmp = mset (zip inp (fst (draw_tags n g))) \<and> sorted (map snd tmp)"
proof -
  let ?z = "zip inp (fst (draw_tags n g))"
  have lz: "length ?z = n" using assms by (simp add: length_draw_tags)
  from sort_order_sorted [OF lz] obtain t where
    so: "sort_order n ?z = Inr t" and lt: "length t = n" and ms: "mset t = mset ?z"
    and sr: "sorted (map snd t)" by auto
  have "permute_devs inp out n g = Inr (map fst t, snd (draw_tags n g))"
    using assms by (simp add: permute_devs_def assign_order_zip so store_out_map lt)
  with ms sr show ?thesis by blast
qed

lemma mset_map_fst_zip:
  "length xs = length ys \<Longrightarrow> mset (map fst (zip xs ys)) = mset xs"
  by simp

lemma permute_devs_mset:
  assumes "length inp = n" and "length out = n"
  shows "\<exists>row g'. permute_devs inp out n g = Inr (row, g') \<and> mset row = mset inp"
proof (cases "n = 2")
  case True
  from assms(1) True obtain x y where "inp = [x, y]"
    by (cases inp; cases "tl inp") auto
  then show ?thesis using permute_devs_two [of inp out g] assms True by simp
next
  case False
  from permute_devs_sort [OF assms False, of g] obtain tmp where
    p: "permute_devs inp out n g = Inr (map fst tmp, snd (draw_tags n g))"
    and ms: "mset tmp = mset (zip inp (fst (draw_tags n g)))" by auto
  have "mset (map fst tmp) = image_mset fst (mset tmp)" by simp
  also have "\<dots> = mset (map fst (zip inp (fst (draw_tags n g))))" by (simp add: ms)
  also have "\<dots> = mset inp" using assms by (simp add: length_draw_tags)
  finally show ?thesis using p by auto
qed

lemma draw_tags_add:
  "snd (draw_tags (a + b) g) = snd (draw_tags b (snd (draw_tags a g)))"
proof (induction b)
  case 0
  then show ?case by simp
next
  case (Suc b)
  obtain t1 g1 where d1: "draw_tags (a + b) g = (t1, g1)" by (cases "draw_tags (a + b) g")
  obtain t2 g2 where d2: "draw_tags b (snd (draw_tags a g)) = (t2, g2)"
    by (cases "draw_tags b (snd (draw_tags a g))")
  from Suc d1 d2 have "g1 = g2" by simp
  then show ?case using d1 d2 by (simp split: prod.splits)
qed

lemma identity_row:
  "for_loop 0 n (\<lambda>j row. Inr (row[j := j])) (replicate n 0) = Inr [0..<n]"
proof -
  let ?I = "\<lambda>j (row :: nat list). length row = n \<and> take j row = [0..<j]"
  have "\<exists>row. for_loop 0 n (\<lambda>j row. Inr (row[j := j])) (replicate n 0) = Inr row \<and> ?I n row"
  proof (rule for_loop_total [where I = ?I])
    show "?I 0 (replicate n 0)" by simp
    show "0 \<le> n" by simp
  next
    fix j and row :: "nat list"
    assume "j < n" and "?I j row"
    then show "\<exists>s'. Inr (row[j := j]) = Inr s' \<and> ?I (Suc j) s'"
      by (simp add: take_Suc_update)
  qed
  then obtain row where r: "for_loop 0 n (\<lambda>j row. Inr (row[j := j])) (replicate n 0) = Inr row"
    and l: "length row = n" and t: "take n row = [0..<n]" by auto
  from l have "take n row = row" by simp
  with t r show ?thesis by simp
qed

lemma fill_rows_ok:
  "\<exists>s. fill_rows nr n ([], g) = Inr s \<and> rows_ok n g nr s"
  unfolding fill_rows_def
proof (rule for_loop_total [where I = "rows_ok n g"])
  show "rows_ok n g 0 ([], g)" by (simp add: rows_ok_def row_draws_def)
  show "0 \<le> nr" by simp
next
  fix i and s :: "nat list list \<times> rng"
  assume lt: "i < nr" and inv: "rows_ok n g i s"
  obtain rs gi where s: "s = (rs, gi)" by (cases s)
  show "\<exists>s'. (case s of (rs, g) \<Rightarrow>
          if i = 0 then
            (case for_loop 0 n (\<lambda>j row. Inr (row[j := j])) (replicate n 0) of
               Inl e \<Rightarrow> Inl e
             | Inr row \<Rightarrow> Inr (rs @ [row], g))
          else
            (case permute_devs (rs ! (i - 1)) (replicate n 0) n g of
               Inl e \<Rightarrow> Inl e
             | Inr (row, g') \<Rightarrow> Inr (rs @ [row], g'))) = Inr s' \<and> rows_ok n g (Suc i) s'"
  proof (cases "i = 0")
    case True
    then show ?thesis using inv s by (simp add: identity_row rows_ok_def row_draws_def)
  next
    case False
    let ?prev = "rs ! (i - 1)"
    have len: "length rs = i" using inv s by (simp add: rows_ok_def)
    have "mset ?prev = mset [0..<n]" using inv s False by (simp add: rows_ok_def)
    then have lp: "length ?prev = n" using mset_eq_length [of ?prev "[0..<n]"] by simp
    from permute_devs_mset [OF lp, of "replicate n 0" gi] obtain row g' where
      p: "permute_devs ?prev (replicate n 0) n gi = Inr (row, g')" and
      ms: "mset row = mset ?prev" by auto
    have gi: "gi = snd (draw_tags (row_draws n i) g)" using inv s by (simp add: rows_ok_def)
    have g2: "g' = snd (draw_tags (row_draws n (Suc i)) g)"
    proof (cases "n = 2")
      case True
      then have "g' = gi" using p permute_devs_two [of ?prev "replicate n 0" gi] lp by simp
      then show ?thesis using gi True by (simp add: row_draws_def)
    next
      case n2: False
      have lo: "length (replicate n (0::nat)) = n" by simp
      from permute_devs_sort [OF lp lo n2, of gi] p
      have "g' = snd (draw_tags n gi)" by auto
      also have "\<dots> = snd (draw_tags ((i - 1) * n + n) g)"
        using gi n2 by (simp only: draw_tags_add row_draws_def if_False)
      also have "(i - 1) * n + n = i * n" using False by (cases i) simp_all
      finally show ?thesis using n2 by (simp add: row_draws_def)
    qed
    have "rows_ok n g (Suc i) (rs @ [row], g')"
      unfolding rows_ok_def fst_conv snd_conv
    proof (intro conjI allI impI)
      show "length (rs @ [row]) = Suc i" using len by simp
    next
      fix r assume "r < Suc i"
      then show "mset ((rs @ [row]) ! r) = mset [0..<n]"
        using inv s ms \<open>mset ?prev = mset [0..<n]\<close> len
        by (cases "r = i") (auto simp: rows_ok_def nth_append)
    next
      show "(rs @ [row]) ! 0 = [0..<n]" using inv s False len
        by (simp add: rows_ok_def nth_append)
    next
      fix r assume r: "0 < r \<and> r < Suc i"
      show "\<exists>gr gr'. permute_devs ((rs @ [row]) ! (r - 1)) (replicate n 0) n gr =
          Inr ((rs @ [row]) ! r, gr')"
      proof (cases "r = i")
        case True
        then show ?thesis using p len False by (auto simp: nth_append)
      next
        case False
        then have "0 < r \<and> r < i" using r by simp
        then show ?thesis using inv s len by (auto simp: rows_ok_def nth_append)
      qed
    next
      show "g' = snd (draw_tags (row_draws n (Suc i)) g)" by (rule g2)
    qed
    then show ?thesis using s False p by simp
  qed
qed

lemma new_map_rows:
  assumes "0 < k"
  shows "\<exists>rs g'. new_map n k sp nr g =
           Inr (\<lparr>ndevs = n, ngroups = k, groupsz = replicate k (c_div (int n - int sp) (int k)),
                 nspares = sp, nrows = nr, rows = rs, nbroken = 0,
                 broken = replicate sp None\<rparr>, g') \<and> rows_ok n g nr (rs, g')"
proof -
  from fill_rows_ok [of nr n g] obtain rs g' where
    "fill_rows nr n ([], g) = Inr (rs, g')" and "rows_ok n g nr (rs, g')" by auto
  then show ?thesis using assms by (simp add: new_map_def)
qed

text \<open>
  Claim C1. \<^verbatim>\<open>new_map\<close> with a positive number of groups returns a map of \<open>nrows\<close> rows,
  each a permutation of \<open>0, \<dots>, ndevs - 1\<close> (the same multiset of slots). Row 0 is the
  identity; every later row is what \<^verbatim>\<open>permute_devs\<close> makes of the row before it: the two
  slots exchanged and no draw when \<open>ndevs = 2\<close>, otherwise the slots paired with \<open>ndevs\<close>
  freshly drawn tags and put in ascending order of the tags.
\<close>

theorem new_map_rows_permutations:
  assumes "0 < ngroups'"
  shows "\<exists>mp g'. new_map ndevs' ngroups' nspares' nrows' g = Inr (mp, g') \<and>
           length (rows mp) = nrows' \<and>
           (\<forall>r<nrows'. mset (rows mp ! r) = mset [0..<ndevs']) \<and>
           (0 < nrows' \<longrightarrow> rows mp ! 0 = [0..<ndevs']) \<and>
           (\<forall>r. 0 < r \<and> r < nrows' \<longrightarrow>
              (\<exists>gr gr'. permute_devs (rows mp ! (r - 1)) (replicate ndevs' 0) ndevs' gr =
                           Inr (rows mp ! r, gr') \<and>
                 (if ndevs' = 2
                  then rows mp ! r = [rows mp ! (r - 1) ! 1, rows mp ! (r - 1) ! 0] \<and> gr' = gr
                  else \<exists>tmp. mset tmp = mset (zip (rows mp ! (r - 1)) (fst (draw_tags ndevs' gr))) \<and>
                         sorted (map snd tmp) \<and> rows mp ! r = map fst tmp \<and>
                         gr' = snd (draw_tags ndevs' gr))))"
proof -
  from new_map_rows [OF assms, of ndevs' nspares' nrows' g] obtain rs g' where
    nm: "new_map ndevs' ngroups' nspares' nrows' g =
           Inr (\<lparr>ndevs = ndevs', ngroups = ngroups',
                 groupsz = replicate ngroups' (c_div (int ndevs' - int nspares') (int ngroups')),
                 nspares = nspares', nrows = nrows', rows = rs, nbroken = 0,
                 broken = replicate nspares' None\<rparr>, g')"
    and ok: "rows_ok ndevs' g nrows' (rs, g')" by blast
  let ?mp = "\<lparr>ndevs = ndevs', ngroups = ngroups',
                 groupsz = replicate ngroups' (c_div (int ndevs' - int nspares') (int ngroups')),
                 nspares = nspares', nrows = nrows', rows = rs, nbroken = 0,
                 broken = replicate nspares' None\<rparr>"
  have len: "length rs = nrows'"
    and ms: "\<forall>r<nrows'. mset (rs ! r) = mset [0..<ndevs']"
    and r0: "0 < nrows' \<longrightarrow> rs ! 0 = [0..<ndevs']"
    and pd: "\<forall>r. 0 < r \<and> r < nrows' \<longrightarrow>
        (\<exists>gr gr'. permute_devs (rs ! (r - 1)) (replicate ndevs' 0) ndevs' gr = Inr (rs ! r, gr'))"
    using ok by (simp_all add: rows_ok_def)
  have step: "\<forall>r. 0 < r \<and> r < nrows' \<longrightarrow>
              (\<exists>gr gr'. permute_devs (rs ! (r - 1)) (replicate ndevs' 0) ndevs' gr =
                           Inr (rs ! r, gr') \<and>
                 (if ndevs' = 2
                  then rs ! r = [rs ! (r - 1) ! 1, rs ! (r - 1) ! 0] \<and> gr' = gr
                  else \<exists>tmp. mset tmp = mset (zip (rs ! (r - 1)) (fst (draw_tags ndevs' gr))) \<and>
                         sorted (map snd tmp) \<and> rs ! r = map fst tmp \<and>
                         gr' = snd (draw_tags ndevs' gr)))"
  proof (intro allI impI)
    fix r assume r: "0 < r \<and> r < nrows'"
    with pd obtain gr gr' where
      p: "permute_devs (rs ! (r - 1)) (replicate ndevs' 0) ndevs' gr = Inr (rs ! r, gr')"
      by blast
    have "r - 1 < nrows'" using r by auto
    then have "mset (rs ! (r - 1)) = mset [0..<ndevs']" using ms by blast
    then have lp: "length (rs ! (r - 1)) = ndevs'"
      using mset_eq_length [of "rs ! (r - 1)" "[0..<ndevs']"] by simp
    have lo: "length (replicate ndevs' (0::nat)) = ndevs'" by simp
    show "\<exists>gr gr'. permute_devs (rs ! (r - 1)) (replicate ndevs' 0) ndevs' gr =
                           Inr (rs ! r, gr') \<and>
                 (if ndevs' = 2
                  then rs ! r = [rs ! (r - 1) ! 1, rs ! (r - 1) ! 0] \<and> gr' = gr
                  else \<exists>tmp. mset tmp = mset (zip (rs ! (r - 1)) (fst (draw_tags ndevs' gr))) \<and>
                         sorted (map snd tmp) \<and> rs ! r = map fst tmp \<and>
                         gr' = snd (draw_tags ndevs' gr))"
    proof (cases "ndevs' = 2")
      case True
      with p permute_devs_two [of "rs ! (r - 1)" "replicate ndevs' 0" gr] lp
      have "rs ! r = [rs ! (r - 1) ! 1, rs ! (r - 1) ! 0] \<and> gr' = gr" by simp
      with p True show ?thesis by auto
    next
      case False
      from permute_devs_sort [OF lp lo False, of gr] p obtain tmp where
        "rs ! r = map fst tmp" "gr' = snd (draw_tags ndevs' gr)"
        "mset tmp = mset (zip (rs ! (r - 1)) (fst (draw_tags ndevs' gr)))"
        "sorted (map snd tmp)" by auto
      with p False show ?thesis by auto
    qed
  qed
  have rw: "rows ?mp = rs" by simp
  show ?thesis
  proof (intro exI conjI)
    show "new_map ndevs' ngroups' nspares' nrows' g = Inr (?mp, g')" by (rule nm)
    show "length (rows ?mp) = nrows'" unfolding rw by (rule len)
    show "\<forall>r<nrows'. mset (rows ?mp ! r) = mset [0..<ndevs']" unfolding rw by (rule ms)
    show "0 < nrows' \<longrightarrow> rows ?mp ! 0 = [0..<ndevs']" unfolding rw by (rule r0)
    show "\<forall>r. 0 < r \<and> r < nrows' \<longrightarrow>
              (\<exists>gr gr'. permute_devs (rows ?mp ! (r - 1)) (replicate ndevs' 0) ndevs' gr =
                           Inr (rows ?mp ! r, gr') \<and>
                 (if ndevs' = 2
                  then rows ?mp ! r = [rows ?mp ! (r - 1) ! 1, rows ?mp ! (r - 1) ! 0] \<and> gr' = gr
                  else \<exists>tmp. mset tmp = mset (zip (rows ?mp ! (r - 1)) (fst (draw_tags ndevs' gr))) \<and>
                         sorted (map snd tmp) \<and> rows ?mp ! r = map fst tmp \<and>
                         gr' = snd (draw_tags ndevs' gr)))"
      unfolding rw by (rule step)
  qed
qed

theorem new_map_rows_permutations_witness:
  "0 < (1::nat) \<and>
   (\<exists>mp g'. new_map 3 1 1 3 0 = Inr (mp, g') \<and> rows mp = [[0, 1, 2], [0, 1, 2], [2, 0, 1]] \<and>
      rows mp ! 0 = [0..<3] \<and> mset (rows mp ! 2) = mset [0..<3])"
proof -
  have h: "0 < (1::nat)" by simp
  have e: "new_map 3 1 1 3 0 =
      Inr (\<lparr>ndevs = 3, ngroups = 1, groupsz = [2], nspares = 1, nrows = 3,
         rows = [[0, 1, 2], [0, 1, 2], [2, 0, 1]], nbroken = 0, broken = [None]\<rparr>,
        25707281917278)"
    by (simp add: new_map_def fill_rows_def permute_devs_def for_loop.simps replicate_numeral
        assign_order_def sort_order_def sort_inner_def store_out_def mrand48_def c_div_def)
  from new_map_rows_permutations [OF h, of 3 1 3 0]
  have "\<exists>mp g'. new_map 3 1 1 3 0 = Inr (mp, g') \<and>
      rows mp = [[0, 1, 2], [0, 1, 2], [2, 0, 1]] \<and>
      rows mp ! 0 = [0..<3] \<and> mset (rows mp ! 2) = mset [0..<3]"
  proof (elim exE conjE)
    fix mp g'
    assume nm: "new_map 3 1 1 3 0 = Inr (mp, g')"
      and ms: "\<forall>r<3. mset (rows mp ! r) = mset [0..<3]"
      and r0: "0 < (3::nat) \<longrightarrow> rows mp ! 0 = [0..<3]"
    have two: "(2::nat) < 3" by simp
    have m2: "mset (rows mp ! 2) = mset [0..<3]" by (rule ms [rule_format, OF two])
    have z: "rows mp ! 0 = [0..<3]" by (rule r0 [rule_format]) simp
    have mpe: "mp = \<lparr>ndevs = 3, ngroups = 1, groupsz = [2], nspares = 1, nrows = 3,
         rows = [[0, 1, 2], [0, 1, 2], [2, 0, 1]], nbroken = 0, broken = [None]\<rparr>"
      using nm unfolding e by simp
    have rw: "rows mp = [[0, 1, 2], [0, 1, 2], [2, 0, 1]]" unfolding mpe by simp
    show ?thesis
      by (intro exI conjI) (rule nm, rule rw, rule z, rule m2)
  qed
  with h show ?thesis by (rule conjI)
qed

section \<open>\<^verbatim>\<open>develop_map\<close>\<close>

lemma developed_upto_slot:
  assumes inv: "developed_upto b d i0 j" and j: "j < ndevs b" and i0: "i0 < nrows b * ndevs b"
  shows "developed_upto b (d[i0 := (d ! i0)[j := developed_slot_spec b i0 j]]) i0 (Suc j)"
proof -
  let ?d = "d[i0 := (d ! i0)[j := developed_slot_spec b i0 j]]"
  have len: "length d = nrows b * ndevs b" using inv by (simp add: developed_upto_def)
  have ll: "\<forall>i<nrows b * ndevs b. length (d ! i) = ndevs b"
    using inv by (simp add: developed_upto_def)
  have rows_before: "\<forall>i<i0. \<forall>j<ndevs b. d ! i ! j = developed_slot_spec b i j"
    using inv by (simp add: developed_upto_def)
  have slots_before: "\<forall>j'<j. d ! i0 ! j' = developed_slot_spec b i0 j'"
    using inv by (simp add: developed_upto_def)
  have a: "length ?d = nrows b * ndevs b" using len by simp
  have b: "\<forall>i<nrows b * ndevs b. length (?d ! i) = ndevs b"
  proof (intro allI impI)
    fix i assume "i < nrows b * ndevs b"
    then show "length (?d ! i) = ndevs b"
      using ll len by (cases "i = i0") simp_all
  qed
  have c: "\<forall>i<i0. \<forall>j<ndevs b. ?d ! i ! j = developed_slot_spec b i j"
  proof (intro allI impI)
    fix i j' assume "i < i0" and "j' < ndevs b"
    then show "?d ! i ! j' = developed_slot_spec b i j'"
      using rows_before by simp
  qed
  have "\<forall>j'<Suc j. ?d ! i0 ! j' = developed_slot_spec b i0 j'"
  proof (intro allI impI)
    fix j' assume j': "j' < Suc j"
    have l0: "length (d ! i0) = ndevs b" using ll i0 by simp
    show "?d ! i0 ! j' = developed_slot_spec b i0 j'"
    proof (cases "j' = j")
      case True
      then show ?thesis using i0 len l0 j by simp
    next
      case False
      then have "j' < j" using j' by simp
      then show ?thesis using slots_before i0 len False by simp
    qed
  qed
  with a b c show ?thesis unfolding developed_upto_def by blast
qed

lemma developed_upto_row:
  assumes "developed_upto b d i0 (ndevs b)"
  shows "developed_upto b d (Suc i0) 0"
proof -
  have "\<forall>i<Suc i0. \<forall>j<ndevs b. d ! i ! j = developed_slot_spec b i j"
  proof (intro allI impI)
    fix i j assume "i < Suc i0" and "j < ndevs b"
    then show "d ! i ! j = developed_slot_spec b i j"
      using assms by (cases "i = i0") (simp_all add: developed_upto_def)
  qed
  then show ?thesis using assms by (simp add: developed_upto_def)
qed

lemma developed_upto_all:
  assumes "developed_upto b d (nrows b * ndevs b) 0"
  shows "d = developed_rows_spec b"
proof (rule nth_equalityI)
  show "length d = length (developed_rows_spec b)"
    using assms by (simp add: developed_upto_def developed_rows_spec_def)
next
  fix i assume "i < length d"
  then have i: "i < nrows b * ndevs b" using assms by (simp add: developed_upto_def)
  have li: "length (d ! i) = ndevs b" using assms i by (simp add: developed_upto_def)
  have "d ! i = map (developed_slot_spec b i) [0..<ndevs b]"
  proof (rule nth_equalityI)
    show "length (d ! i) = length (map (developed_slot_spec b i) [0..<ndevs b])"
      using li by simp
  next
    fix j assume "j < length (d ! i)"
    then have "j < ndevs b" using li by simp
    then show "d ! i ! j = map (developed_slot_spec b i) [0..<ndevs b] ! j"
      using assms i by (simp add: developed_upto_def)
  qed
  then show "d ! i = developed_rows_spec b ! i"
    using i by (simp add: developed_rows_spec_def)
qed

lemma flat_index:
  assumes "base < nr" and "add < (n::nat)"
  shows "base * n + add < nr * n" and "(base * n + add) div n = base"
    and "(base * n + add) mod n = add"
proof -
  have "base * n + add < base * n + n" using assms by simp
  also have "\<dots> = Suc base * n" by simp
  also have "\<dots> \<le> nr * n" using assms by (intro mult_le_mono1) simp
  finally show "base * n + add < nr * n" .
  show "(base * n + add) div n = base" using assms by simp
  show "(base * n + add) mod n = add" using assms by simp
qed

lemma develop_slots:
  assumes shape: "base_shape b" and base: "base < nrows b" and add: "add < ndevs b"
    and inv: "developed_upto b d (base * ndevs b + add) 0"
  shows "\<exists>d'. for_loop 0 (ndevs b) (\<lambda>j drows.
           if base < length (rows b) \<and> j < length (rows b ! base) \<and>
              base * ndevs b + add < length drows \<and>
              j < length (drows ! (base * ndevs b + add))
           then
             Inr (drows[base * ndevs b + add :=
                    (drows ! (base * ndevs b + add))
                      [j := (rows b ! base ! j + add) mod ndevs b]])
           else Inl OutOfBounds) d = Inr d' \<and>
         developed_upto b d' (base * ndevs b + add) (ndevs b)"
proof (rule for_loop_total [where I = "\<lambda>j d. developed_upto b d (base * ndevs b + add) j"])
  show "developed_upto b d (base * ndevs b + add) 0" by (rule inv)
  show "0 \<le> ndevs b" by simp
next
  fix j d1
  assume j: "j < ndevs b" and i1: "developed_upto b d1 (base * ndevs b + add) j"
  let ?i0 = "base * ndevs b + add"
  note fi = flat_index [OF base add]
  have c1: "base < length (rows b)" "j < length (rows b ! base)"
    using shape base j by (simp_all add: base_shape_def)
  have c2: "?i0 < length d1" "j < length (d1 ! ?i0)"
    using i1 fi(1) j by (simp_all add: developed_upto_def)
  have v: "(rows b ! base ! j + add) mod ndevs b = developed_slot_spec b ?i0 j"
    by (simp only: developed_slot_spec_def fi(2) fi(3))
  show "\<exists>s'. (if base < length (rows b) \<and> j < length (rows b ! base) \<and>
              ?i0 < length d1 \<and> j < length (d1 ! ?i0)
           then Inr (d1[?i0 := (d1 ! ?i0)[j := (rows b ! base ! j + add) mod ndevs b]])
           else Inl OutOfBounds) = Inr s' \<and> developed_upto b s' ?i0 (Suc j)"
    using c1 c2 developed_upto_slot [OF i1 j fi(1)] by (simp add: v)
qed

lemma develop_adds:
  assumes shape: "base_shape b" and base: "base < nrows b"
    and inv: "developed_upto b d (base * ndevs b) 0"
  shows "\<exists>d'. for_loop 0 (ndevs b) (\<lambda>add.
           for_loop 0 (ndevs b) (\<lambda>j drows.
             if base < length (rows b) \<and> j < length (rows b ! base) \<and>
                base * ndevs b + add < length drows \<and>
                j < length (drows ! (base * ndevs b + add))
             then
               Inr (drows[base * ndevs b + add :=
                      (drows ! (base * ndevs b + add))
                        [j := (rows b ! base ! j + add) mod ndevs b]])
             else Inl OutOfBounds)) d = Inr d' \<and>
         developed_upto b d' (Suc base * ndevs b) 0"
proof -
  have "\<exists>d'. for_loop 0 (ndevs b) (\<lambda>add.
           for_loop 0 (ndevs b) (\<lambda>j drows.
             if base < length (rows b) \<and> j < length (rows b ! base) \<and>
                base * ndevs b + add < length drows \<and>
                j < length (drows ! (base * ndevs b + add))
             then
               Inr (drows[base * ndevs b + add :=
                      (drows ! (base * ndevs b + add))
                        [j := (rows b ! base ! j + add) mod ndevs b]])
             else Inl OutOfBounds)) d = Inr d' \<and>
         developed_upto b d' (base * ndevs b + ndevs b) 0"
  proof (rule for_loop_total [where I = "\<lambda>add d. developed_upto b d (base * ndevs b + add) 0"])
    show "developed_upto b d (base * ndevs b + 0) 0" using inv by simp
    show "0 \<le> ndevs b" by simp
  next
    fix add d1
    assume add: "add < ndevs b" and i1: "developed_upto b d1 (base * ndevs b + add) 0"
    from develop_slots [OF shape base add i1] obtain d2 where
      r: "for_loop 0 (ndevs b) (\<lambda>j drows.
           if base < length (rows b) \<and> j < length (rows b ! base) \<and>
              base * ndevs b + add < length drows \<and>
              j < length (drows ! (base * ndevs b + add))
           then
             Inr (drows[base * ndevs b + add :=
                    (drows ! (base * ndevs b + add))
                      [j := (rows b ! base ! j + add) mod ndevs b]])
           else Inl OutOfBounds) d1 = Inr d2"
      and i2: "developed_upto b d2 (base * ndevs b + add) (ndevs b)" by blast
    have "developed_upto b d2 (base * ndevs b + Suc add) 0"
      using developed_upto_row [OF i2] by simp
    with r show "\<exists>s'. for_loop 0 (ndevs b) (\<lambda>j drows.
           if base < length (rows b) \<and> j < length (rows b ! base) \<and>
              base * ndevs b + add < length drows \<and>
              j < length (drows ! (base * ndevs b + add))
           then
             Inr (drows[base * ndevs b + add :=
                    (drows ! (base * ndevs b + add))
                      [j := (rows b ! base ! j + add) mod ndevs b]])
           else Inl OutOfBounds) d1 = Inr s' \<and>
         developed_upto b s' (base * ndevs b + Suc add) 0" by blast
  qed
  moreover have "Suc base * ndevs b = base * ndevs b + ndevs b" by simp
  ultimately show ?thesis by (simp only:)
qed

lemma develop_rows_spec:
  assumes shape: "base_shape b" and inv: "developed_upto b d 0 0"
  shows "develop_rows b d = Inr (developed_rows_spec b)"
proof -
  have "\<exists>d'. develop_rows b d = Inr d' \<and> developed_upto b d' (nrows b * ndevs b) 0"
    unfolding develop_rows_def
  proof (rule for_loop_total [where I = "\<lambda>base d. developed_upto b d (base * ndevs b) 0"])
    show "developed_upto b d (0 * ndevs b) 0" using inv by simp
    show "0 \<le> nrows b" by simp
  next
    fix base d1
    assume "base < nrows b" and "developed_upto b d1 (base * ndevs b) 0"
    then show "\<exists>s'. for_loop 0 (ndevs b) (\<lambda>add.
           for_loop 0 (ndevs b) (\<lambda>j drows.
             if base < length (rows b) \<and> j < length (rows b ! base) \<and>
                base * ndevs b + add < length drows \<and>
                j < length (drows ! (base * ndevs b + add))
             then
               Inr (drows[base * ndevs b + add :=
                      (drows ! (base * ndevs b + add))
                        [j := (rows b ! base ! j + add) mod ndevs b]])
             else Inl OutOfBounds)) d1 = Inr s' \<and>
         developed_upto b s' (Suc base * ndevs b) 0"
      by (rule develop_adds [OF shape])
  qed
  then show ?thesis using developed_upto_all by blast
qed

lemma develop_map_closed:
  assumes shape: "base_shape b" and groups: "0 < ngroups b"
  shows "\<exists>dm g'. new_map (ndevs b) (ngroups b) (nspares b) (nrows b * ndevs b) g = Inr (dm, g') \<and>
           develop_map b g = Inr (developed_map_spec b, g') \<and>
           g' = snd (draw_tags (row_draws (ndevs b) (nrows b * ndevs b)) g)"
proof -
  let ?n = "ndevs b" and ?nr = "nrows b * ndevs b"
  from new_map_rows [OF groups, of ?n "nspares b" ?nr g] obtain rs g' where
    nm: "new_map ?n (ngroups b) (nspares b) ?nr g =
           Inr (\<lparr>ndevs = ?n, ngroups = ngroups b,
                 groupsz = replicate (ngroups b) (c_div (int ?n - int (nspares b)) (int (ngroups b))),
                 nspares = nspares b, nrows = ?nr, rows = rs, nbroken = 0,
                 broken = replicate (nspares b) None\<rparr>, g')"
    and ok: "rows_ok ?n g ?nr (rs, g')" by blast
  have len: "length rs = ?nr" using ok by (simp add: rows_ok_def)
  have ms: "\<forall>r<?nr. mset (rs ! r) = mset [0..<?n]" using ok by (simp add: rows_ok_def)
  have g: "g' = snd (draw_tags (row_draws ?n ?nr) g)" using ok by (simp add: rows_ok_def)
  have ll: "\<forall>i<?nr. length (rs ! i) = ?n"
  proof (intro allI impI)
    fix i assume "i < ?nr"
    then have "mset (rs ! i) = mset [0..<?n]" using ms by blast
    then show "length (rs ! i) = ?n" using mset_eq_length [of "rs ! i" "[0..<?n]"] by simp
  qed
  have "developed_upto b rs 0 0" using len ll by (simp add: developed_upto_def)
  from develop_rows_spec [OF shape this]
  have dr: "develop_rows b rs = Inr (developed_rows_spec b)" .
  have "develop_map b g = Inr (developed_map_spec b, g')"
    by (simp add: develop_map_def nm dr developed_map_spec_def)
  with nm g show ?thesis by blast
qed

text \<open>
  Claim C4. \<^verbatim>\<open>develop_map\<close> on a base map returns a map of \<open>nrows * ndevs\<close> rows in which,
  for every base row \<open>r\<close>, every shift \<open>s\<close> below \<open>ndevs\<close> and every slot \<open>j\<close>, row
  \<open>r * ndevs + s\<close> has slot \<open>j\<close> equal to \<open>(base.rows[r][j] + s) mod ndevs\<close>.
\<close>

theorem develop_map_rows:
  assumes "base_shape bmap" and "0 < ngroups bmap"
  shows "\<exists>dmap g'. develop_map bmap g = Inr (dmap, g') \<and>
           nrows dmap = nrows bmap * ndevs bmap \<and>
           length (rows dmap) = nrows bmap * ndevs bmap \<and>
           (\<forall>r<nrows bmap. \<forall>s<ndevs bmap. \<forall>j<ndevs bmap.
              rows dmap ! (r * ndevs bmap + s) ! j = (rows bmap ! r ! j + s) mod ndevs bmap)"
proof -
  from develop_map_closed [OF assms, of g] obtain g' where
    d: "develop_map bmap g = Inr (developed_map_spec bmap, g')" by blast
  let ?d = "developed_map_spec bmap"
  have rw: "rows ?d = developed_rows_spec bmap" by (simp add: developed_map_spec_def)
  have a: "nrows ?d = nrows bmap * ndevs bmap" by (simp add: developed_map_spec_def)
  have b: "length (rows ?d) = nrows bmap * ndevs bmap"
    unfolding rw by (simp add: developed_rows_spec_def)
  have c: "\<forall>r<nrows bmap. \<forall>s<ndevs bmap. \<forall>j<ndevs bmap.
              rows ?d ! (r * ndevs bmap + s) ! j = (rows bmap ! r ! j + s) mod ndevs bmap"
  proof (intro allI impI)
    fix r s j assume r: "r < nrows bmap" and s: "s < ndevs bmap" and j: "j < ndevs bmap"
    note fi = flat_index [OF r s]
    have "rows ?d ! (r * ndevs bmap + s) ! j = developed_slot_spec bmap (r * ndevs bmap + s) j"
      unfolding rw using fi(1) j by (simp add: developed_rows_spec_def)
    also have "\<dots> = (rows bmap ! r ! j + s) mod ndevs bmap"
      by (simp only: developed_slot_spec_def fi(2) fi(3))
    finally show "rows ?d ! (r * ndevs bmap + s) ! j = (rows bmap ! r ! j + s) mod ndevs bmap" .
  qed
  show ?thesis
    by (intro exI conjI) (rule d, rule a, rule b, rule c)
qed

lemma develop_map_3:
  "develop_map map_3 0 =
     Inr (\<lparr>ndevs = 3, ngroups = 1, groupsz = [2], nspares = 1, nrows = 3,
          rows = [[0, 1, 2], [1, 2, 0], [2, 0, 1]], nbroken = 0, broken = [None]\<rparr>,
          25707281917278)"
  by (simp add: map_3_def develop_map_def develop_rows_def new_map_def fill_rows_def
      permute_devs_def for_loop.simps replicate_numeral assign_order_def sort_order_def
      sort_inner_def store_out_def mrand48_def c_div_def)

theorem develop_map_rows_witness:
  "base_shape map_3 \<and> 0 < ngroups map_3 \<and>
   (\<exists>dmap g'. develop_map map_3 0 = Inr (dmap, g') \<and> nrows dmap = 3 \<and>
      rows dmap = [[0, 1, 2], [1, 2, 0], [2, 0, 1]] \<and>
      rows dmap ! (0 * ndevs map_3 + 2) ! 1 = (rows map_3 ! 0 ! 1 + 2) mod ndevs map_3)"
proof -
  have h1: "base_shape map_3" by (simp add: base_shape_def map_3_def)
  have h2: "0 < ngroups map_3" by (simp add: map_3_def)
  from develop_map_rows [OF h1 h2, of 0]
  have "\<exists>dmap g'. develop_map map_3 0 = Inr (dmap, g') \<and> nrows dmap = 3 \<and>
      rows dmap = [[0, 1, 2], [1, 2, 0], [2, 0, 1]] \<and>
      rows dmap ! (0 * ndevs map_3 + 2) ! 1 = (rows map_3 ! 0 ! 1 + 2) mod ndevs map_3"
  proof (elim exE conjE)
    fix dmap g'
    assume d: "develop_map map_3 0 = Inr (dmap, g')"
      and sl: "\<forall>r<nrows map_3. \<forall>s<ndevs map_3. \<forall>j<ndevs map_3.
              rows dmap ! (r * ndevs map_3 + s) ! j = (rows map_3 ! r ! j + s) mod ndevs map_3"
    have i: "0 < nrows map_3" "2 < ndevs map_3" "1 < ndevs map_3" by (simp_all add: map_3_def)
    have s: "rows dmap ! (0 * ndevs map_3 + 2) ! 1 = (rows map_3 ! 0 ! 1 + 2) mod ndevs map_3"
      by (rule sl [rule_format, OF i])
    have e: "dmap = \<lparr>ndevs = 3, ngroups = 1, groupsz = [2], nspares = 1, nrows = 3,
          rows = [[0, 1, 2], [1, 2, 0], [2, 0, 1]], nbroken = 0, broken = [None]\<rparr>"
      using d unfolding develop_map_3 by simp
    have n: "nrows dmap = 3" and rw: "rows dmap = [[0, 1, 2], [1, 2, 0], [2, 0, 1]]"
      unfolding e by simp_all
    show ?thesis
      by (intro exI conjI) (rule d, rule n, rule rw, rule s)
  qed
  with h1 h2 show ?thesis by (intro conjI)
qed

text \<open>
  Claim C5, as the specification states it: \<^verbatim>\<open>develop_map\<close> does not consult the random
  generator, and leaves its state as it found it. It does consult it: the developed map is
  allocated by \<^verbatim>\<open>new_map\<close>, which fills every row after the first with \<^verbatim>\<open>permute_devs\<close>
  before \<^verbatim>\<open>develop_map\<close> overwrites the rows. On the map of three devices and from the
  state 0 the generator is left in another state.
\<close>

theorem develop_map_rng_counterexample:
  "develop_map map_3 0 =
     Inr (\<lparr>ndevs = 3, ngroups = 1, groupsz = [2], nspares = 1, nrows = 3,
          rows = [[0, 1, 2], [1, 2, 0], [2, 0, 1]], nbroken = 0, broken = [None]\<rparr>,
          25707281917278) \<and>
   (25707281917278 :: rng) \<noteq> 0"
  by (simp add: develop_map_3)

text \<open>
  Claim C5, amended. The map that \<^verbatim>\<open>develop_map\<close> returns is a function of the base map
  alone: it is the developed map of the specification, whatever the state of the generator.
  The generator is consulted, through \<^verbatim>\<open>new_map\<close>: its state after \<^verbatim>\<open>develop_map\<close> is the
  state that \<^verbatim>\<open>new_map\<close> leaves for \<open>nrows * ndevs\<close> rows, which is the state after
  \<open>(nrows * ndevs - 1) * ndevs\<close> draws, and after no draw when \<open>ndevs = 2\<close>.
\<close>

theorem develop_map_deterministic:
  assumes "base_shape bmap" and "0 < ngroups bmap"
  shows "\<exists>g'. develop_map bmap g = Inr (developed_map_spec bmap, g') \<and>
           (\<exists>dmap. new_map (ndevs bmap) (ngroups bmap) (nspares bmap)
                      (nrows bmap * ndevs bmap) g = Inr (dmap, g')) \<and>
           g' = snd (draw_tags (if ndevs bmap = 2 then 0
                                else (nrows bmap * ndevs bmap - 1) * ndevs bmap) g)"
  using develop_map_closed [OF assms, of g] unfolding row_draws_def by blast

lemma draw_tags_6: "snd (draw_tags 6 0) = 25707281917278"
proof -
  have six: "(6::nat) = Suc (Suc (Suc (Suc (Suc (Suc 0)))))" by simp
  show ?thesis unfolding six by (simp add: mrand48_def)
qed

theorem develop_map_deterministic_witness:
  "develop_map map_3 0 = Inr (developed_map_spec map_3, 25707281917278) \<and>
   snd (draw_tags ((nrows map_3 * ndevs map_3 - 1) * ndevs map_3) 0) = 25707281917278 \<and>
   rows (developed_map_spec map_3) = [[0, 1, 2], [1, 2, 0], [2, 0, 1]] \<and>
   develop_map map_2 5 = Inr (developed_map_spec map_2, 5) \<and>
   rows (developed_map_spec map_2) = [[0, 1], [1, 0], [1, 0], [0, 1]]"
proof -
  have a1: "base_shape map_3" by (simp add: base_shape_def map_3_def)
  have a2: "0 < ngroups map_3" by (simp add: map_3_def)
  have n3: "(nrows map_3 * ndevs map_3 - 1) * ndevs map_3 = 6" "ndevs map_3 \<noteq> 2"
    by (simp_all add: map_3_def)
  from develop_map_deterministic [OF a1 a2, of 0] obtain g3 where
    d3: "develop_map map_3 0 = Inr (developed_map_spec map_3, g3)"
    and g3: "g3 = snd (draw_tags (if ndevs map_3 = 2 then 0
                                else (nrows map_3 * ndevs map_3 - 1) * ndevs map_3) 0)"
    by blast
  have g3': "g3 = 25707281917278" unfolding g3 using n3 by (simp only: if_False draw_tags_6)
  have t3: "snd (draw_tags ((nrows map_3 * ndevs map_3 - 1) * ndevs map_3) 0) = 25707281917278"
    by (simp only: n3 draw_tags_6)
  have r3: "rows (developed_map_spec map_3) = [[0, 1, 2], [1, 2, 0], [2, 0, 1]]"
    by (simp add: developed_map_spec_def developed_rows_spec_def developed_slot_spec_def
        map_3_def upt_rec [of _ "numeral k" for k])
  have h1: "base_shape map_2" by (simp add: base_shape_def map_2_def less_Suc_eq numeral_2_eq_2)
  have h2: "0 < ngroups map_2" by (simp add: map_2_def)
  have h3: "ndevs map_2 = 2" by (simp add: map_2_def)
  from develop_map_deterministic [OF h1 h2, of 5] obtain g2 where
    d2: "develop_map map_2 5 = Inr (developed_map_spec map_2, g2)"
    and g2: "g2 = snd (draw_tags (if ndevs map_2 = 2 then 0
                                else (nrows map_2 * ndevs map_2 - 1) * ndevs map_2) 5)"
    by blast
  have g2': "g2 = 5" unfolding g2 by (simp add: h3)
  have r2: "rows (developed_map_spec map_2) = [[0, 1], [1, 0], [1, 0], [0, 1]]"
    by (simp add: developed_map_spec_def developed_rows_spec_def developed_slot_spec_def
        map_2_def upt_rec [of _ "numeral k" for k])
  show ?thesis
    by (intro conjI) (rule d3 [unfolded g3'], rule t3, rule r3, rule d2 [unfolded g2'], rule r2)
qed

section \<open>\<^verbatim>\<open>eval_decluster\<close>: what it leaves of the map, and unknown selectors\<close>

lemma eval_pairs_frame:
  assumes "eval_pairs f1 (mpx, acc) = Inr (mpy, acc')" and "f1 < ndevs mpx"
  shows "\<exists>b. mpy = mpx\<lparr>broken := b\<rparr>"
proof -
  let ?I = "\<lambda>(i::nat) (s :: map_t \<times> nat \<times> nat \<times> nat \<times> nat). \<exists>b. fst s = mpx\<lparr>broken := b\<rparr>"
  have "?I (ndevs mpx) (mpy, acc')"
  proof (rule for_loop_Inr [where I = ?I, OF assms(1) [unfolded eval_pairs_def fst_conv]])
    show "?I (f1 + 1) (mpx, acc)" by (auto intro: exI [of _ "broken mpx"])
    show "f1 + 1 \<le> ndevs mpx" using assms(2) by simp
  next
    fix i s s'
    assume "?I i s" and
      "(case s of (mp, acc) \<Rightarrow>
          if 1 < length (broken mp) then
           (let mp' = mp\<lparr>broken := (broken mp)[1 := Some i]\<rparr>
            in (case eval_resilver mp' of
                  Inl e \<Rightarrow> Inl e
                | Inr ios \<Rightarrow>
                    (case tally ios acc of
                       Inl e \<Rightarrow> Inl e
                     | Inr acc' \<Rightarrow> Inr (mp', acc'))))
         else Inl OutOfBounds) = Inr s'"
    then show "?I (Suc i) s'"
      by (auto simp: Let_def split: prod.splits if_splits sum.splits)
  qed
  then show ?thesis by simp
qed

lemma eval_faults_frame:
  assumes "eval_faults faults (mpx, acc) = Inr (mpy, acc')"
  shows "\<exists>b. mpy = mpx\<lparr>broken := b\<rparr>"
proof -
  let ?I = "\<lambda>(i::nat) (s :: map_t \<times> nat \<times> nat \<times> nat \<times> nat). \<exists>b. fst s = mpx\<lparr>broken := b\<rparr>"
  have "?I (ndevs mpx) (mpy, acc')"
  proof (rule for_loop_Inr [where I = ?I, OF assms(1) [unfolded eval_faults_def fst_conv]])
    show "?I 0 (mpx, acc)" by (auto intro: exI [of _ "broken mpx"])
    show "0 \<le> ndevs mpx" by simp
  next
    fix i s s'
    assume lt: "i < ndevs mpx" and inv: "?I i s" and
      body: "(case s of (mp, acc) \<Rightarrow>
          if 0 < length (broken mp) then
           (let mp' = mp\<lparr>broken := (broken mp)[0 := Some i]\<rparr>
            in if faults < 2 then
                 (case eval_resilver mp' of
                    Inl e \<Rightarrow> Inl e
                  | Inr ios \<Rightarrow>
                      (case tally ios acc of
                         Inl e \<Rightarrow> Inl e
                       | Inr acc' \<Rightarrow> Inr (mp', acc')))
               else eval_pairs i (mp', acc))
         else Inl OutOfBounds) = Inr s'"
    obtain mp1 acc1 where s: "s = (mp1, acc1)" by (cases s)
    obtain mp2 acc2 where s': "s' = (mp2, acc2)" by (cases s')
    from inv s obtain b where mp1: "mp1 = mpx\<lparr>broken := b\<rparr>" by auto
    show "?I (Suc i) s'"
    proof (cases "faults < 2")
      case True
      with body s s' mp1 show ?thesis
        by (auto simp: Let_def split: if_splits sum.splits)
    next
      case False
      with body s s' have "eval_pairs i (mp1\<lparr>broken := (broken mp1)[0 := Some i]\<rparr>, acc1) = Inr (mp2, acc2)"
        by (auto simp: Let_def split: if_splits)
      from eval_pairs_frame [OF this] lt mp1 s' show ?thesis by auto
    qed
  qed
  then show ?thesis by simp
qed

text \<open>
  Claim C10. When \<^verbatim>\<open>eval_decluster\<close> returns, the map can be used again: \<open>nbroken\<close> is
  back to 0, and \<open>ndevs\<close>, \<open>ngroups\<close>, \<open>nspares\<close>, \<open>nrows\<close>, every \<open>groupsz\<close> entry and
  every slot of every row are what they were. \<^verbatim>\<open>eval_resilver\<close> stores nothing through
  \<^verbatim>\<open>map\<close> (lines 145 to 226 only read it), which is why its model returns the count alone;
  \<^verbatim>\<open>eval_decluster\<close> stores into \<open>nbroken\<close> and \<open>broken\<close> only.
\<close>

theorem eval_decluster_frame:
  assumes "eval_decluster mp how faults = Inr (mp', v)"
  shows "nbroken mp' = 0 \<and> ndevs mp' = ndevs mp \<and> ngroups mp' = ngroups mp \<and>
         nspares mp' = nspares mp \<and> nrows mp' = nrows mp \<and>
         groupsz mp' = groupsz mp \<and> rows mp' = rows mp"
proof -
  from assms obtain mpy acc' where
    f: "eval_faults faults (mp\<lparr>nbroken := faults\<rparr>, 0, 0, 0, 0) = Inr (mpy, acc')"
    and m: "mp' = mpy\<lparr>nbroken := 0\<rparr>"
    by (auto simp: eval_decluster_def Let_def split: sum.splits prod.splits if_splits)
  from eval_faults_frame [OF f] obtain b where "mpy = mp\<lparr>nbroken := faults, broken := b\<rparr>"
    by auto
  with m show ?thesis by simp
qed

theorem eval_decluster_frame_witness:
  "eval_decluster map_3 1 1 =
     Inr (map_3\<lparr>broken := [Some 2]\<rparr>, DMul (DDiv (DDiv (DInt 2) (DInt 3)) (DInt 1)) (DInt 1)) \<and>
   nbroken (map_3\<lparr>broken := [Some 2]\<rparr>) = 0 \<and> ndevs (map_3\<lparr>broken := [Some 2]\<rparr>) = ndevs map_3 \<and>
   groupsz (map_3\<lparr>broken := [Some 2]\<rparr>) = groupsz map_3 \<and>
   rows (map_3\<lparr>broken := [Some 2]\<rparr>) = rows map_3"
proof -
  have r: "eval_decluster map_3 1 1 =
     Inr (map_3\<lparr>broken := [Some 2]\<rparr>, DMul (DDiv (DDiv (DInt 2) (DInt 3)) (DInt 1)) (DInt 1))"
    by (simp add: map_3_def draid_eval)
  from eval_decluster_frame [OF r] r show ?thesis by simp
qed




section \<open>\<^verbatim>\<open>eval_resilver\<close>: a group with a failure\<close>

lemma broken_devs_iff:
  "d \<in> broken_devs mp \<longleftrightarrow> Some d \<in> set (take (nbroken mp) (broken mp))"
  by (auto simp: broken_devs_def split: option.splits)

lemma is_broken_from_set:
  assumes "listed_ok mp"
  shows "is_broken_from mp dev i =
    Inr (Some dev \<in> set (drop i (take (nbroken mp) (broken mp))))"
  using assms
proof (induction mp dev i rule: is_broken_from.induct)
  case (1 mp dev i)
  have nl: "nbroken mp \<le> length (broken mp)"
    and nn: "None \<notin> set (take (nbroken mp) (broken mp))"
    using "1.prems" by (simp_all add: listed_ok_def)
  show ?case
  proof (cases "i < nbroken mp")
    case True
    then have il: "i < length (broken mp)" using nl by simp
    have dr: "drop i (take (nbroken mp) (broken mp)) =
        broken mp ! i # drop (Suc i) (take (nbroken mp) (broken mp))"
      using True il by (simp add: Cons_nth_drop_Suc [symmetric])
    have mem: "broken mp ! i \<in> set (take (nbroken mp) (broken mp))"
      using True il by (metis in_set_conv_nth length_take min.absorb2 nl nth_take)
    have "broken mp ! i \<noteq> None"
    proof
      assume "broken mp ! i = None"
      with mem have "None \<in> set (take (nbroken mp) (broken mp))" by simp
      with nn show False by simp
    qed
    then obtain b where b: "broken mp ! i = Some b" by blast
    show ?thesis
    proof (cases "dev = b")
      case eq: True
      then show ?thesis using True il dr b
        by (subst is_broken_from.simps) simp
    next
      case False
      then show ?thesis using True il dr b "1.IH" [OF True il b False "1.prems"]
        by (subst is_broken_from.simps) auto
    qed
  next
    case False
    then show ?thesis by (subst is_broken_from.simps) simp
  qed
qed

lemma is_broken_set:
  assumes "listed_ok mp"
  shows "is_broken mp dev = Inr (dev \<in> broken_devs mp)"
  using is_broken_from_set [OF assms, of dev 0] by (simp add: is_broken_def broken_devs_iff)

lemma healthy_from_Cons:
  assumes "s < length row"
  shows "healthy_from mp row s =
    (if row ! s \<in> broken_devs mp then healthy_from mp row (Suc s)
     else row ! s # healthy_from mp row (Suc s))"
  using assms by (simp add: healthy_from_def Cons_nth_drop_Suc [symmetric])

lemma healthy_from_end: "length row \<le> s \<Longrightarrow> healthy_from mp row s = []"
  by (simp add: healthy_from_def)

lemma skip_broken_next:
  assumes "listed_ok mp" and "length row = ndevs mp"
    and "healthy_from mp row s \<noteq> []"
  shows "\<exists>s'. skip_broken mp row s = Inr s' \<and> s' < ndevs mp \<and>
           row ! s' = hd (healthy_from mp row s) \<and>
           healthy_from mp row (Suc s') = tl (healthy_from mp row s)"
  using assms
proof (induction mp row s rule: skip_broken.induct)
  case (1 mp row s)
  have sl: "s < length row"
  proof (rule ccontr)
    assume "\<not> s < length row"
    then have "healthy_from mp row s = []" by (simp add: healthy_from_end)
    then show False using "1.prems"(3) by simp
  qed
  note ib = is_broken_set [OF "1.prems"(1), of "row ! s"]
  show ?case
  proof (cases "row ! s \<in> broken_devs mp")
    case True
    have h: "healthy_from mp row s = healthy_from mp row (Suc s)"
      using healthy_from_Cons [OF sl, of mp] True by simp
    then have ne: "healthy_from mp row (Suc s) \<noteq> []" using "1.prems"(3) by simp
    have lt: "s + 1 < ndevs mp"
    proof (rule ccontr)
      assume "\<not> s + 1 < ndevs mp"
      then have "healthy_from mp row (Suc s) = []"
        using "1.prems"(2) by (simp add: healthy_from_end)
      then show False using ne by simp
    qed
    from "1.IH" [OF sl ib True lt "1.prems"(1,2)] ne
    obtain s' where "skip_broken mp row (s + 1) = Inr s'" "s' < ndevs mp"
      "row ! s' = hd (healthy_from mp row (Suc s))"
      "healthy_from mp row (Suc s') = tl (healthy_from mp row (Suc s))"
      by auto
    then show ?thesis using sl ib True lt h
      by (subst skip_broken.simps) simp
  next
    case False
    have h: "healthy_from mp row s = row ! s # healthy_from mp row (Suc s)"
      using healthy_from_Cons [OF sl, of mp] False by simp
    show ?thesis using sl ib False h "1.prems"(2)
      by (subst skip_broken.simps) simp
  qed
qed

lemma group_slots_Suc:
  assumes "index + k < length row"
  shows "group_slots row index (Suc k) = group_slots row index k @ [row ! (index + k)]"
  using assms by (simp add: group_slots_def take_Suc_conv_app_nth)

lemma broken_before_Suc:
  assumes "index + k < length row"
  shows "broken_before mp row index (Suc k) =
    (if row ! (index + k) \<in> broken_devs mp then Suc (broken_before mp row index k)
     else broken_before mp row index k)"
  using assms by (simp add: broken_before_def group_slots_Suc)

lemma broken_before_mono:
  assumes "k \<le> g"
  shows "broken_before mp row index k \<le> broken_before mp row index g"
proof -
  from assms obtain e where g: "g = k + e" using le_Suc_ex by blast
  have "group_slots row index g = group_slots row index k @ take e (drop k (drop index row))"
    unfolding group_slots_def g by (rule take_add)
  then show ?thesis by (simp add: broken_before_def)
qed

lemma rebuilt_upto_start:
  assumes "length reads = ndevs mp" and "length writes = ndevs mp"
  shows "rebuilt_upto mp row index reads writes 0 (ndevs mp - nspares mp, reads, writes)"
  using assms
  by (simp add: rebuilt_upto_def group_slots_def broken_before_def healthy_from_def
      healthy_spares_def spare_slots_def)

lemma rebuilt_upto_read:
  assumes inv: "rebuilt_upto mp row index reads0 writes0 k (sp, r, w)"
    and ik: "index + k < length row" and h: "row ! (index + k) \<notin> broken_devs mp"
    and dv: "row ! (index + k) < ndevs mp"
  shows "rebuilt_upto mp row index reads0 writes0 (Suc k)
           (sp, r[row ! (index + k) := r ! (row ! (index + k)) + 1], w)"
proof -
  let ?dev = "row ! (index + k)"
  have lr: "length r = ndevs mp"
    and rd: "\<forall>d<ndevs mp. r ! d = reads0 ! d +
           count_list (filter (\<lambda>d. d \<notin> broken_devs mp) (group_slots row index k)) d"
    using inv by (simp_all add: rebuilt_upto_def)
  have bb: "broken_before mp row index (Suc k) = broken_before mp row index k"
    using broken_before_Suc [OF ik, of mp] h by simp
  have "\<forall>d<ndevs mp. r[?dev := r ! ?dev + 1] ! d = reads0 ! d +
           count_list (filter (\<lambda>d. d \<notin> broken_devs mp) (group_slots row index (Suc k))) d"
  proof (intro allI impI)
    fix d assume d: "d < ndevs mp"
    show "r[?dev := r ! ?dev + 1] ! d = reads0 ! d +
           count_list (filter (\<lambda>d. d \<notin> broken_devs mp) (group_slots row index (Suc k))) d"
      using rd [rule_format, OF d] d lr dv h
      by (cases "d = ?dev") (simp_all add: group_slots_Suc [OF ik])
  qed
  then show ?thesis using inv unfolding rebuilt_upto_def bb by simp
qed

lemma rebuilt_upto_write:
  assumes inv: "rebuilt_upto mp row index reads0 writes0 k (sp, r, w)"
    and ik: "index + k < length row" and b: "row ! (index + k) \<in> broken_devs mp"
    and s': "s' < ndevs mp" and tg: "row ! s' = hd (healthy_from mp row sp)"
    and nx: "healthy_from mp row (Suc s') = tl (healthy_from mp row sp)"
    and ne: "broken_before mp row index k < length (healthy_spares mp row)"
    and dv: "row ! s' < ndevs mp"
  shows "rebuilt_upto mp row index reads0 writes0 (Suc k)
           (s' + 1, r, w[row ! s' := w ! (row ! s') + 1])"
proof -
  let ?c = "broken_before mp row index k" and ?H = "healthy_spares mp row"
  let ?t = "row ! s'"
  have lw: "length w = ndevs mp"
    and wr: "\<forall>d<ndevs mp. w ! d = writes0 ! d + count_list (take ?c ?H) d"
    and hf: "healthy_from mp row sp = drop ?c ?H"
    using inv by (simp_all add: rebuilt_upto_def)
  have bb: "broken_before mp row index (Suc k) = Suc ?c"
    using broken_before_Suc [OF ik, of mp] b by simp
  have gs: "filter (\<lambda>d. d \<notin> broken_devs mp) (group_slots row index (Suc k)) =
      filter (\<lambda>d. d \<notin> broken_devs mp) (group_slots row index k)"
    using b by (simp add: group_slots_Suc [OF ik])
  have t: "?t = ?H ! ?c" using tg hf ne by (simp add: hd_drop_conv_nth)
  have tk: "take (Suc ?c) ?H = take ?c ?H @ [?t]"
    using ne t by (simp add: take_Suc_conv_app_nth)
  have nx': "healthy_from mp row (s' + 1) = drop (Suc ?c) ?H"
    using nx hf by (simp add: drop_Suc tl_drop)
  have "\<forall>d<ndevs mp. w[?t := w ! ?t + 1] ! d = writes0 ! d + count_list (take (Suc ?c) ?H) d"
  proof (intro allI impI)
    fix d assume d: "d < ndevs mp"
    show "w[?t := w ! ?t + 1] ! d = writes0 ! d + count_list (take (Suc ?c) ?H) d"
      using wr [rule_format, OF d] d lw dv
      by (cases "d = ?t") (simp_all add: tk)
  qed
  then show ?thesis using inv s' nx' unfolding rebuilt_upto_def bb gs by simp
qed

lemma resilver_group_rebuilt:
  assumes br: "listed_ok mp" and len: "length row = ndevs mp"
    and rg: "\<forall>d\<in>set row. d < ndevs mp"
    and lr: "length reads = ndevs mp" and lw: "length writes = ndevs mp"
    and sp: "nspares mp \<le> ndevs mp" and ix: "index + g \<le> ndevs mp"
    and enough: "broken_before mp row index g \<le> length (healthy_spares mp row)"
  shows "\<exists>s. resilver_group mp row index g (reads, writes) = Inr s \<and>
           rebuilt_upto mp row index reads writes g s"
  unfolding resilver_group_def fst_conv snd_conv
proof (rule for_loop_total [where I = "rebuilt_upto mp row index reads writes"])
  show "rebuilt_upto mp row index reads writes 0 (ndevs mp - nspares mp, reads, writes)"
    by (rule rebuilt_upto_start [OF lr lw])
  show "0 \<le> g" by simp
next
  fix k and s :: "nat \<times> nat list \<times> nat list"
  assume kg: "k < g" and inv: "rebuilt_upto mp row index reads writes k s"
  obtain spx r w where s: "s = (spx, r, w)" by (cases s)
  note inv' = inv [unfolded s]
  let ?dev = "row ! (index + k)"
  have ik: "index + k < length row" using kg ix len by simp
  have dv: "?dev < ndevs mp" using rg ik by simp
  have lr': "length r = ndevs mp" and lw': "length w = ndevs mp"
    and spn: "spx \<le> ndevs mp"
    and hf: "healthy_from mp row spx =
      drop (broken_before mp row index k) (healthy_spares mp row)"
    using inv' by (simp_all add: rebuilt_upto_def)
  note ib = is_broken_set [OF br]
  show "\<exists>s'. (case s of (spareIndex, reads, writes) \<Rightarrow>
          if index + k < length row then
            (let dev = row ! (index + k)
             in (case is_broken mp dev of
                   Inl e \<Rightarrow> Inl e
                 | Inr b \<Rightarrow>
                     (if \<not> b then
                        (if dev < length reads then
                           Inr (spareIndex, reads[dev := reads ! dev + 1], writes)
                         else Inl OutOfBounds)
                      else if ndevs mp < nspares mp then Inl OutOfBounds
                      else if \<not> spareIndex < ndevs mp then Inl AssertionFailed
                      else
                        (case skip_broken mp row spareIndex of
                           Inl e \<Rightarrow> Inl e
                         | Inr spareIndex' \<Rightarrow>
                             (if row ! spareIndex' < length writes then
                                Inr (spareIndex' + 1, reads,
                                     writes[row ! spareIndex' :=
                                       writes ! (row ! spareIndex') + 1])
                              else Inl OutOfBounds)))))
          else Inl OutOfBounds) = Inr s' \<and>
        rebuilt_upto mp row index reads writes (Suc k) s'"
  proof (cases "?dev \<in> broken_devs mp")
    case False
    from rebuilt_upto_read [OF inv' ik False dv]
    show ?thesis using s ik ib False dv lr' by (simp add: Let_def)
  next
    case True
    have "Suc (broken_before mp row index k) = broken_before mp row index (Suc k)"
      using broken_before_Suc [OF ik, of mp] True by simp
    also have "\<dots> \<le> broken_before mp row index g"
      using kg by (intro broken_before_mono) simp
    finally have ne: "broken_before mp row index k < length (healthy_spares mp row)"
      using enough by simp
    then have hne: "healthy_from mp row spx \<noteq> []" using hf by simp
    have lt: "spx < ndevs mp"
    proof (rule ccontr)
      assume "\<not> spx < ndevs mp"
      then have "healthy_from mp row spx = []" using len by (simp add: healthy_from_end)
      then show False using hne by simp
    qed
    from skip_broken_next [OF br len hne] obtain s1 where
      sk: "skip_broken mp row spx = Inr s1" and s1: "s1 < ndevs mp"
      and tg: "row ! s1 = hd (healthy_from mp row spx)"
      and nx: "healthy_from mp row (Suc s1) = tl (healthy_from mp row spx)" by blast
    have dv1: "row ! s1 < ndevs mp" using rg s1 len by simp
    from rebuilt_upto_write [OF inv' ik True s1 tg nx ne dv1]
    show ?thesis using s ik ib True sp lt sk dv1 lw' by (simp add: Let_def)
  qed
qed

lemma count_list_distinct:
  "distinct xs \<Longrightarrow> count_list xs d = (if d \<in> set xs then 1 else 0)"
  by (induction xs) auto

lemma group_slots_before_spares:
  assumes "index + g \<le> m"
  shows "set (group_slots row index g) \<subseteq> set (take m row)"
proof -
  have "take g (drop index (take m row)) = take (min g (m - index)) (drop index row)"
    by (simp add: drop_take)
  also have "min g (m - index) = g" using assms by simp
  finally have "group_slots row index g = take g (drop index (take m row))"
    by (simp add: group_slots_def)
  also have "set \<dots> \<subseteq> set (drop index (take m row))" by (rule set_take_subset)
  also have "\<dots> \<subseteq> set (take m row)" by (rule set_drop_subset)
  finally show ?thesis .
qed

lemma length_concat_option:
  "length (concat (map (\<lambda>b. case b of None \<Rightarrow> [] | Some d \<Rightarrow> [d]) xs)) \<le> length xs"
  by (induction xs) (auto split: option.splits)

lemma enough_spares:
  assumes len: "length row = ndevs mp" and dist: "distinct row"
    and sp: "nspares mp \<le> ndevs mp" and ix: "index + g \<le> ndevs mp - nspares mp"
    and fit: "nbroken mp \<le> nspares mp"
  shows "broken_before mp row index g \<le> length (healthy_spares mp row)"
proof -
  let ?B = "broken_devs mp" and ?m = "ndevs mp - nspares mp"
  let ?G = "filter (\<lambda>d. d \<in> ?B) (group_slots row index g)"
  let ?S = "filter (\<lambda>d. d \<in> ?B) (spare_slots mp row)"
  have cb: "card ?B \<le> nspares mp"
  proof -
    have "card ?B \<le> length (concat (map (\<lambda>b. case b of None \<Rightarrow> [] | Some d \<Rightarrow> [d])
        (take (nbroken mp) (broken mp))))"
      unfolding broken_devs_def by (rule card_length)
    also have "\<dots> \<le> length (take (nbroken mp) (broken mp))"
      by (rule length_concat_option)
    also have "\<dots> \<le> nbroken mp" by simp
    finally show ?thesis using fit by simp
  qed
  have "distinct (take ?m row @ drop ?m row)" using dist by simp
  then have dj: "set (take ?m row) \<inter> set (drop ?m row) = {}"
    and d1: "distinct (take ?m row)" and d2: "distinct (drop ?m row)"
    by (simp_all only: distinct_append)
  have sub: "set (group_slots row index g) \<subseteq> set (take ?m row)"
    by (rule group_slots_before_spares [OF ix])
  have dG: "distinct ?G" using dist by (simp add: group_slots_def)
  have dS: "distinct ?S" using dist by (simp add: spare_slots_def)
  have disj: "set ?G \<inter> set ?S = {}" using sub dj by (auto simp: spare_slots_def)
  have "length ?G + length ?S = card (set ?G) + card (set ?S)"
    by (simp only: distinct_card [OF dG] distinct_card [OF dS])
  also have "\<dots> = card (set ?G \<union> set ?S)"
    by (rule card_Un_disjoint [symmetric]) (simp_all only: List.finite_set disj)
  also have "\<dots> \<le> card ?B"
  proof (rule card_mono)
    show "finite ?B" unfolding broken_devs_def by (rule List.finite_set)
    show "set ?G \<union> set ?S \<subseteq> ?B" by auto
  qed
  finally have gs: "length ?G + length ?S \<le> nspares mp" using cb by simp
  have "length (spare_slots mp row) = nspares mp"
    using len sp by (simp add: spare_slots_def)
  moreover have "length ?S + length (healthy_spares mp row) = length (spare_slots mp row)"
    unfolding healthy_spares_def by (rule sum_length_filter_compl)
  ultimately have "length ?S + length (healthy_spares mp row) = nspares mp" by simp
  with gs show ?thesis by (simp add: broken_before_def)
qed

lemma scan_group_failed:
  assumes "listed_ok mp" and "index + g \<le> length row" and "k \<le> g"
  shows "scan_group mp row index g k =
    Inr (\<exists>d\<in>set (drop k (group_slots row index g)). d \<in> broken_devs mp)"
  using assms
proof (induction mp row index g k rule: scan_group.induct)
  case (1 mp row index g k)
  note ib = is_broken_set [OF "1.prems"(1), of "row ! (index + k)"]
  show ?case
  proof (cases "k < g")
    case True
    then have ik: "index + k < length row" using "1.prems"(2) by simp
    have kl: "k < length (group_slots row index g)"
      using True "1.prems"(2) by (simp add: group_slots_def)
    have nk: "group_slots row index g ! k = row ! (index + k)"
      using True "1.prems"(2) by (simp add: group_slots_def)
    have dr: "drop k (group_slots row index g) =
        row ! (index + k) # drop (Suc k) (group_slots row index g)"
      using Cons_nth_drop_Suc [OF kl] nk by simp
    show ?thesis
    proof (cases "row ! (index + k) \<in> broken_devs mp")
      case b: True
      then show ?thesis using True ik ib dr by (subst scan_group.simps) simp
    next
      case False
      have "scan_group mp row index g (k + 1) =
          Inr (\<exists>d\<in>set (drop (k + 1) (group_slots row index g)). d \<in> broken_devs mp)"
        using "1.IH" [OF True ik ib _ "1.prems"(1,2)] False True by simp
      then show ?thesis using True ik ib dr False by (subst scan_group.simps) simp
    qed
  next
    case False
    then have "drop k (group_slots row index g) = []"
      by (simp add: group_slots_def)
    then show ?thesis using False by (subst scan_group.simps) simp
  qed
qed

lemma sum_list_take_Suc:
  assumes "j < length (xs :: int list)"
  shows "sum_list (take (Suc j) xs) = sum_list (take j xs) + xs ! j"
  using assms by (simp add: take_Suc_conv_app_nth)

lemma sum_list_take_le:
  assumes "\<forall>x\<in>set (xs :: int list). 0 \<le> x"
  shows "0 \<le> sum_list (take j xs)" and "sum_list (take j xs) \<le> sum_list xs"
proof -
  have a: "0 \<le> sum_list (take j xs)"
    using assms by (intro sum_list_nonneg) (auto dest: in_set_takeD)
  have b: "0 \<le> sum_list (drop j xs)"
    using assms by (intro sum_list_nonneg) (auto dest: in_set_dropD)
  have "sum_list xs = sum_list (take j xs @ drop j xs)" by simp
  also have "\<dots> = sum_list (take j xs) + sum_list (drop j xs)" by (rule sum_list_append)
  finally show "sum_list (take j xs) \<le> sum_list xs" using b by simp
  show "0 \<le> sum_list (take j xs)" by (rule a)
qed

lemma reads_spec_row_Suc:
  "reads_spec mp [row] (Suc j) d = reads_spec mp [row] j d + group_reads_spec mp row j d"
  by (simp add: reads_spec_def)

lemma writes_spec_row_Suc:
  "writes_spec mp [row] (Suc j) d = writes_spec mp [row] j d + group_writes_spec mp row j d"
  by (simp add: writes_spec_def)

lemma spec_rows_snoc:
  "reads_spec mp (rs @ [row]) j d = reads_spec mp rs j d + reads_spec mp [row] j d"
  "writes_spec mp (rs @ [row]) j d = writes_spec mp rs j d + writes_spec mp [row] j d"
  by (simp_all add: reads_spec_def writes_spec_def)

lemma group_healthy:
  assumes "\<not> group_failed mp row j"
  shows "group_reads_spec mp row j d = 0" and "group_writes_spec mp row j d = 0"
proof -
  show "group_reads_spec mp row j d = 0" using assms by (simp add: group_reads_spec_def)
  have "filter (\<lambda>d. d \<in> broken_devs mp)
      (group_slots row (group_start mp j) (group_size mp j)) = []"
    using assms by (auto simp: group_failed_def filter_empty_conv)
  then have "broken_before mp row (group_start mp j) (group_size mp j) = 0"
    by (simp add: broken_before_def)
  then show "group_writes_spec mp row j d = 0" by (simp add: group_writes_spec_def)
qed

lemma row_upto_skip:
  assumes inv: "row_upto mp row reads0 writes0 j (index, r, w)"
    and jl: "j < length (groupsz mp)" and nf: "\<not> group_failed mp row j"
  shows "row_upto mp row reads0 writes0 (Suc j) (index + groupsz mp ! j, r, w)"
  using inv unfolding row_upto_def
  by (simp add: sum_list_take_Suc [OF jl] reads_spec_row_Suc writes_spec_row_Suc
      group_healthy [OF nf])

lemma row_upto_rebuilt:
  assumes inv: "row_upto mp row reads0 writes0 j (index, r, w)"
    and jl: "j < length (groupsz mp)" and fl: "group_failed mp row j"
    and rb: "rebuilt_upto mp row (group_start mp j) r w (group_size mp j) (c, r', w')"
    and dist: "distinct row"
  shows "row_upto mp row reads0 writes0 (Suc j) (index + groupsz mp ! j, r', w')"
proof -
  let ?gs = "group_slots row (group_start mp j) (group_size mp j)"
  let ?R = "filter (\<lambda>d. d \<notin> broken_devs mp) ?gs"
  let ?T = "take (broken_before mp row (group_start mp j) (group_size mp j))
      (healthy_spares mp row)"
  have lr: "length r' = ndevs mp" and lw: "length w' = ndevs mp"
    and rd: "\<forall>d<ndevs mp. r' ! d = r ! d + count_list ?R d"
    and wr: "\<forall>d<ndevs mp. w' ! d = w ! d + count_list ?T d"
    using rb by (simp_all add: rebuilt_upto_def)
  have r0: "\<forall>d<ndevs mp. r ! d = reads0 ! d + reads_spec mp [row] j d"
    and w0: "\<forall>d<ndevs mp. w ! d = writes0 ! d + writes_spec mp [row] j d"
    and ix: "index = sum_list (take j (groupsz mp))"
    using inv by (simp_all add: row_upto_def)
  have dR: "distinct ?R" using dist by (simp add: group_slots_def)
  have dT: "distinct ?T" using dist by (simp add: healthy_spares_def spare_slots_def)
  have cr: "\<And>d. count_list ?R d = group_reads_spec mp row j d"
    using fl by (simp add: count_list_distinct [OF dR] group_reads_spec_def)
  have cw: "\<And>d. count_list ?T d = group_writes_spec mp row j d"
    by (simp only: count_list_distinct [OF dT] group_writes_spec_def)
  have a: "\<forall>d<ndevs mp. r' ! d = reads0 ! d + reads_spec mp [row] (Suc j) d"
    using rd r0 by (simp add: cr reads_spec_row_Suc)
  have b: "\<forall>d<ndevs mp. w' ! d = writes0 ! d + writes_spec mp [row] (Suc j) d"
    using wr w0 by (simp add: cw writes_spec_row_Suc)
  show ?thesis
    using a b lr lw ix unfolding row_upto_def by (simp add: sum_list_take_Suc [OF jl])
qed

lemma resilver_row_spec:
  assumes ok: "map_ok mp" and row: "row \<in> set (rows mp)"
    and lr: "length reads = ndevs mp" and lw: "length writes = ndevs mp"
  shows "\<exists>s. resilver_row mp row (reads, writes) = Inr s \<and>
           row_upto mp row reads writes (ngroups mp) s"
proof -
  have sh: "map_shape mp" and br: "listed_ok mp" and fit: "nbroken mp \<le> nspares mp"
    using ok by (simp_all add: map_ok_def)
  have sp: "nspares mp \<le> ndevs mp" and lg: "length (groupsz mp) = ngroups mp"
    and nn: "\<forall>gs\<in>set (groupsz mp). 0 \<le> gs"
    and sg: "sum_list (groupsz mp) \<le> int (ndevs mp) - int (nspares mp)"
    and len: "length row = ndevs mp" and dist: "distinct row"
    and rg: "\<forall>d\<in>set row. d < ndevs mp"
    using sh row by (simp_all add: map_shape_def)
  show ?thesis
    unfolding resilver_row_def fst_conv snd_conv
  proof (rule for_loop_total [where I = "row_upto mp row reads writes"])
    show "row_upto mp row reads writes 0 (0, reads, writes)"
      using lr lw by (simp add: row_upto_def reads_spec_def writes_spec_def)
    show "0 \<le> ngroups mp" by simp
  next
    fix j and s :: "int \<times> nat list \<times> nat list"
    assume j: "j < ngroups mp" and inv: "row_upto mp row reads writes j s"
    obtain index r w where s: "s = (index, r, w)" by (cases s)
    note inv' = inv [unfolded s]
    let ?g = "groupsz mp ! j"
    have jl: "j < length (groupsz mp)" using j lg by simp
    have g0: "0 \<le> ?g" using nn jl by simp
    have ix: "index = sum_list (take j (groupsz mp))" and lr': "length r = ndevs mp"
      and lw': "length w = ndevs mp" using inv' by (simp_all add: row_upto_def)
    have i0: "0 \<le> index" using sum_list_take_le(1) [OF nn, of j] ix by simp
    have "index + ?g = sum_list (take (Suc j) (groupsz mp))"
      using sum_list_take_Suc [OF jl] ix by simp
    also have "\<dots> \<le> sum_list (groupsz mp)" by (rule sum_list_take_le(2) [OF nn])
    finally have bdi: "index + ?g \<le> int (ndevs mp) - int (nspares mp)" using sg by simp
    have st: "group_start mp j = nat index" by (simp add: group_start_def ix)
    have sz: "group_size mp j = nat ?g" by (simp add: group_size_def)
    have bd: "nat index + nat ?g \<le> ndevs mp - nspares mp" using bdi i0 g0 sp by linarith
    then have bl: "nat index + nat ?g \<le> length row" and bn: "nat index + nat ?g \<le> ndevs mp"
      using len by simp_all
    have sc: "scan_group mp row (nat index) (nat ?g) 0 = Inr (group_failed mp row j)"
      using scan_group_failed [OF br bl, of 0] by (simp add: group_failed_def st sz)
    show "\<exists>s'. (case s of (index, reads, writes) \<Rightarrow>
          if j < length (groupsz mp) then
            (let groupsz' = groupsz mp ! j
             in if groupsz' \<le> 0 then Inr (index + groupsz', reads, writes)
                else if index < 0 then Inl OutOfBounds
                else
                  (case scan_group mp row (nat index) (nat groupsz') 0 of
                     Inl e \<Rightarrow> Inl e
                   | Inr fix \<Rightarrow>
                       (if \<not> fix then Inr (index + groupsz', reads, writes)
                        else
                          (case resilver_group mp row (nat index) (nat groupsz')
                                  (reads, writes) of
                             Inl e \<Rightarrow> Inl e
                           | Inr (spareIndex, reads', writes') \<Rightarrow>
                               Inr (index + groupsz', reads', writes')))))
          else Inl OutOfBounds) = Inr s' \<and> row_upto mp row reads writes (Suc j) s'"
    proof (cases "group_failed mp row j")
      case False
      have "row_upto mp row reads writes (Suc j) (index + ?g, r, w)"
        by (rule row_upto_skip [OF inv' jl False])
      then show ?thesis using s jl sc False i0 by (simp add: Let_def)
    next
      case True
      have gp: "0 < ?g"
      proof (rule ccontr)
        assume "\<not> 0 < ?g"
        then have "group_size mp j = 0" by (simp add: sz)
        then show False using True by (simp add: group_failed_def group_slots_def)
      qed
      have en: "broken_before mp row (nat index) (nat ?g) \<le> length (healthy_spares mp row)"
        by (rule enough_spares [OF len dist sp bd fit])
      from resilver_group_rebuilt [OF br len rg lr' lw' sp bn en] obtain t where
        run: "resilver_group mp row (nat index) (nat ?g) (r, w) = Inr t"
        and rb: "rebuilt_upto mp row (nat index) r w (nat ?g) t" by blast
      obtain c r' w' where t: "t = (c, r', w')" by (cases t)
      have "row_upto mp row reads writes (Suc j) (index + ?g, r', w')"
        by (rule row_upto_rebuilt [OF inv' jl True _ dist]) (use rb t st sz in simp)
      then show ?thesis using s jl sc True run t gp i0 by (simp add: Let_def)
    qed
  qed
qed

lemma resilver_rows_spec:
  assumes ok: "map_ok mp"
  shows "resilver_rows mp (replicate (ndevs mp) 0, replicate (ndevs mp) 0) =
    Inr (map (reads_spec mp (rows mp) (ngroups mp)) [0..<ndevs mp],
         map (writes_spec mp (rows mp) (ngroups mp)) [0..<ndevs mp])"
proof -
  have lrs: "length (rows mp) = nrows mp" using ok by (simp add: map_ok_def map_shape_def)
  let ?I = "\<lambda>i s. rows_upto mp (take i (rows mp)) s"
  have "\<exists>s. resilver_rows mp (replicate (ndevs mp) 0, replicate (ndevs mp) 0) = Inr s \<and>
      ?I (nrows mp) s"
    unfolding resilver_rows_def
  proof (rule for_loop_total [where I = ?I])
    show "?I 0 (replicate (ndevs mp) 0, replicate (ndevs mp) 0)"
      by (simp add: rows_upto_def reads_spec_def writes_spec_def)
    show "0 \<le> nrows mp" by simp
  next
    fix i and s :: "nat list \<times> nat list"
    assume i: "i < nrows mp" and inv: "?I i s"
    obtain r w where s: "s = (r, w)" by (cases s)
    have il: "i < length (rows mp)" using i lrs by simp
    then have mem: "rows mp ! i \<in> set (rows mp)" by simp
    have lr: "length r = ndevs mp" and lw: "length w = ndevs mp"
      and r0: "\<forall>d<ndevs mp. r ! d = reads_spec mp (take i (rows mp)) (ngroups mp) d"
      and w0: "\<forall>d<ndevs mp. w ! d = writes_spec mp (take i (rows mp)) (ngroups mp) d"
      using inv s by (simp_all add: rows_upto_def)
    from resilver_row_spec [OF ok mem lr lw] obtain t where
      run: "resilver_row mp (rows mp ! i) (r, w) = Inr t"
      and ru: "row_upto mp (rows mp ! i) r w (ngroups mp) t" by blast
    obtain index r' w' where t: "t = (index, r', w')" by (cases t)
    have tk: "take (Suc i) (rows mp) = take i (rows mp) @ [rows mp ! i]"
      using il by (simp add: take_Suc_conv_app_nth)
    have "rows_upto mp (take (Suc i) (rows mp)) (r', w')"
      using ru r0 w0 unfolding t row_upto_def rows_upto_def tk
      by (simp add: spec_rows_snoc)
    then show "\<exists>s'. (case s of (reads, writes) \<Rightarrow>
          if i < length (rows mp) then
            (case resilver_row mp (rows mp ! i) (reads, writes) of
               Inl e \<Rightarrow> Inl e
             | Inr (index, reads', writes') \<Rightarrow> Inr (reads', writes'))
          else Inl OutOfBounds) = Inr s' \<and> ?I (Suc i) s'"
      using s il run t by simp
  qed
  then obtain r w where
    rr: "resilver_rows mp (replicate (ndevs mp) 0, replicate (ndevs mp) 0) = Inr (r, w)"
    and iv: "rows_upto mp (take (nrows mp) (rows mp)) (r, w)" by auto
  have tk: "take (nrows mp) (rows mp) = rows mp" using lrs by simp
  have "r = map (reads_spec mp (rows mp) (ngroups mp)) [0..<ndevs mp]"
    using iv unfolding tk rows_upto_def by (intro nth_equalityI) simp_all
  moreover have "w = map (writes_spec mp (rows mp) (ngroups mp)) [0..<ndevs mp]"
    using iv unfolding tk rows_upto_def by (intro nth_equalityI) simp_all
  ultimately show ?thesis using rr by simp
qed

lemma most_io_max:
  "\<exists>max_read max_write. most_io n reads writes =
     Inr (max_read, max_write, Max (set (0 # map (\<lambda>d. reads ! d + writes ! d) [0..<n])))"
proof -
  let ?f = "\<lambda>d. reads ! d + writes ! d"
  let ?I = "\<lambda>i (s :: nat \<times> nat \<times> nat). snd (snd s) = Max (set (0 # map ?f [0..<i]))"
  have "\<exists>s. most_io n reads writes = Inr s \<and> ?I n s"
    unfolding most_io_def
  proof (rule for_loop_total [where I = ?I])
    show "?I 0 (0, 0, 0)" by simp
    show "0 \<le> n" by simp
  next
    fix i and s :: "nat \<times> nat \<times> nat"
    assume inv: "?I i s"
    obtain a b c where s: "s = (a, b, c)" by (cases s)
    have c: "c = Max (set (0 # map ?f [0..<i]))" using inv s by simp
    have "set (0 # map ?f [0..<Suc i]) = insert (?f i) (set (0 # map ?f [0..<i]))" by auto
    then have mx: "Max (set (0 # map ?f [0..<Suc i])) =
        max (?f i) (Max (set (0 # map ?f [0..<i])))"
      by (simp del: set_simps upt_Suc)
    have nw: "(if ?f i > c then ?f i else c) = Max (set (0 # map ?f [0..<Suc i]))"
      unfolding mx c [symmetric] by (simp add: max_def)
    show "\<exists>s'. (case s of (max_read, max_write, max_ios) \<Rightarrow>
          Inr (if reads ! i > max_read then reads ! i else max_read,
               if writes ! i > max_write then writes ! i else max_write,
               if reads ! i + writes ! i > max_ios then reads ! i + writes ! i else max_ios)) =
        Inr s' \<and> ?I (Suc i) s'"
      unfolding s prod.case
      by (rule exI, rule conjI, rule refl) (simp only: snd_conv nw)
  qed
  then obtain s where "most_io n reads writes = Inr s"
    "snd (snd s) = Max (set (0 # map ?f [0..<n]))" by blast
  then show ?thesis by (cases s) auto
qed

lemma eval_resilver_spec:
  assumes "map_ok mp"
  shows "eval_resilver mp = Inr (max_ios_spec mp)"
proof -
  let ?r = "map (reads_spec mp (rows mp) (ngroups mp)) [0..<ndevs mp]"
  let ?w = "map (writes_spec mp (rows mp) (ngroups mp)) [0..<ndevs mp]"
  from most_io_max [of "ndevs mp" ?r ?w] obtain a b where
    m: "most_io (ndevs mp) ?r ?w =
      Inr (a, b, Max (set (0 # map (\<lambda>d. ?r ! d + ?w ! d) [0..<ndevs mp])))" by blast
  have "map (\<lambda>d. ?r ! d + ?w ! d) [0..<ndevs mp] =
      map (\<lambda>d. reads_spec mp (rows mp) (ngroups mp) d +
                 writes_spec mp (rows mp) (ngroups mp) d) [0..<ndevs mp]"
    by (rule map_cong) simp_all
  then have "most_io (ndevs mp) ?r ?w = Inr (a, b, max_ios_spec mp)"
    using m by (simp only: max_ios_spec_def)
  then show ?thesis
    by (simp add: eval_resilver_def resilver_rows_spec [OF assms])
qed



lemma resilver_group_counts:
  assumes "listed_ok mp" and "nbroken mp \<le> nspares mp"
    and "nspares mp \<le> ndevs mp"
    and "length each_row = ndevs mp" and "distinct each_row"
    and "\<forall>d\<in>set each_row. d < ndevs mp"
    and "length reads = ndevs mp" and "length writes = ndevs mp"
    and "index + groupsz' \<le> ndevs mp - nspares mp"
  shows "\<exists>spareIndex reads' writes'.
           resilver_group mp each_row index groupsz' (reads, writes) =
             Inr (spareIndex, reads', writes') \<and>
           spareIndex \<le> ndevs mp \<and>
           (\<forall>d<ndevs mp. reads' ! d = reads ! d +
              (if d \<in> set (group_slots each_row index groupsz') \<and> d \<notin> broken_devs mp
               then 1 else 0)) \<and>
           (\<forall>d<ndevs mp. writes' ! d = writes ! d +
              (if d \<in> set (take (broken_before mp each_row index groupsz')
                            (healthy_spares mp each_row))
               then 1 else 0))"
proof -
  let ?nb = "broken_before mp each_row index groupsz'"
  let ?H = "healthy_spares mp each_row"
  let ?R = "filter (\<lambda>d. d \<notin> broken_devs mp) (group_slots each_row index groupsz')"
  have en: "?nb \<le> length ?H"
    by (rule enough_spares [OF assms(4,5,3,9,2)])
  have ix: "index + groupsz' \<le> ndevs mp" using assms(9) by simp
  from resilver_group_rebuilt [OF assms(1,4,6,7,8,3) ix en]
  obtain s where run: "resilver_group mp each_row index groupsz' (reads, writes) = Inr s"
    and inv: "rebuilt_upto mp each_row index reads writes groupsz' s" by blast
  obtain sp r w where s: "s = (sp, r, w)" by (cases s)
  have c: "sp \<le> ndevs mp"
    and rd: "\<forall>d<ndevs mp. r ! d = reads ! d + count_list ?R d"
    and wr: "\<forall>d<ndevs mp. w ! d = writes ! d + count_list (take ?nb ?H) d"
    using inv unfolding s by (simp_all add: rebuilt_upto_def)
  have dH: "distinct ?H" using assms(5) by (simp add: healthy_spares_def spare_slots_def)
  have dR: "distinct ?R" using assms(5) by (simp add: group_slots_def)
  have dT: "distinct (take ?nb ?H)" using dH by simp
  have rd': "\<forall>d<ndevs mp. r ! d = reads ! d +
      (if d \<in> set (group_slots each_row index groupsz') \<and> d \<notin> broken_devs mp then 1 else 0)"
  proof (intro allI impI)
    fix d assume "d < ndevs mp"
    then have "r ! d = reads ! d + count_list ?R d" using rd by blast
    then show "r ! d = reads ! d +
      (if d \<in> set (group_slots each_row index groupsz') \<and> d \<notin> broken_devs mp then 1 else 0)"
      by (simp add: count_list_distinct [OF dR])
  qed
  have wr': "\<forall>d<ndevs mp. w ! d = writes ! d + (if d \<in> set (take ?nb ?H) then 1 else 0)"
  proof (intro allI impI)
    fix d assume "d < ndevs mp"
    then have "w ! d = writes ! d + count_list (take ?nb ?H) d" using wr by blast
    then show "w ! d = writes ! d + (if d \<in> set (take ?nb ?H) then 1 else 0)"
      by (simp only: count_list_distinct [OF dT])
  qed
  show ?thesis
    by (intro exI conjI) (rule run [unfolded s], rule c, rule rd', rule wr')
qed

lemma group_fits:
  assumes "map_shape mp" and "j < ngroups mp"
  shows "group_start mp j + group_size mp j \<le> ndevs mp - nspares mp"
proof -
  have sp: "nspares mp \<le> ndevs mp" and lg: "length (groupsz mp) = ngroups mp"
    and nn: "\<forall>gs\<in>set (groupsz mp). 0 \<le> gs"
    and sg: "sum_list (groupsz mp) \<le> int (ndevs mp) - int (nspares mp)"
    using assms(1) by (simp_all add: map_shape_def)
  have jl: "j < length (groupsz mp)" using assms(2) lg by simp
  have g0: "0 \<le> groupsz mp ! j" using nn jl by simp
  have i0: "0 \<le> sum_list (take j (groupsz mp))" by (rule sum_list_take_le(1) [OF nn])
  have "sum_list (take j (groupsz mp)) + groupsz mp ! j = sum_list (take (Suc j) (groupsz mp))"
    using sum_list_take_Suc [OF jl] by simp
  also have "\<dots> \<le> sum_list (groupsz mp)" by (rule sum_list_take_le(2) [OF nn])
  finally have "sum_list (take j (groupsz mp)) + groupsz mp ! j \<le>
      int (ndevs mp) - int (nspares mp)" using sg by simp
  then show ?thesis using i0 g0 sp unfolding group_start_def group_size_def by linarith
qed

text \<open>
  Claim C3, as the specification states it: in every row each write for a broken slot goes
  to a distinct healthy spare of the row, the cursor over the spare slots being reset once
  per row. The cursor is declared inside the loop over the groups and starts again at
  \<open>ndevs - nspares\<close> in every group with a failure. In the row \<open>[0, 1, 2, 3, 4, 5]\<close> of two
  groups of two with the devices 0 and 2 broken, one in each group, both writes go to
  device 4 and none to the other spare, device 5.
\<close>

theorem resilver_row_same_spare_counterexample:
  "resilver_row (map_6\<lparr>nbroken := 2, broken := [Some 0, Some 2]\<rparr>) [0, 1, 2, 3, 4, 5]
     (replicate 6 0, replicate 6 0) =
   Inr (4, [0, 1, 0, 1, 0, 0], [0, 0, 0, 0, 2, 0])"
  by (simp add: map_6_def draid_eval)

text \<open>
  Claim C3, amended. On a map whose rows are permutations, whose groups lie before the
  spare slots and whose listed failures fit within the spares, \<^verbatim>\<open>eval_resilver\<close> returns
  (no assertion fails), and its counters are these: in every row and for every group of it
  that contains a failure, each slot with a healthy device produces exactly one read of
  that device, and each slot with a broken device produces exactly one write; the writes of
  one group go, one each, to the first healthy spares of the row in slot order, which are
  distinct devices; groups without a failure produce nothing. The counters after the rows
  are the sums of these over all groups of all rows, the pass over one row adds the sums
  over its groups and leaves the slot index behind the last group, and the result is the
  largest sum of reads and writes of a device. The cursor is local to the group: it starts
  at \<open>ndevs - nspares\<close> in every group with a failure, whatever the groups before it wrote,
  so that groups of one row write to the same spares; it never exceeds \<open>ndevs\<close>.
\<close>

theorem eval_resilver_rebuild:
  assumes "map_ok mp"
  shows "resilver_rows mp (replicate (ndevs mp) 0, replicate (ndevs mp) 0) =
           Inr (map (reads_spec mp (rows mp) (ngroups mp)) [0..<ndevs mp],
                map (writes_spec mp (rows mp) (ngroups mp)) [0..<ndevs mp]) \<and>
         eval_resilver mp = Inr (max_ios_spec mp) \<and>
         (\<forall>each_row\<in>set (rows mp).
            distinct (healthy_spares mp each_row) \<and>
            (\<forall>(reads::nat list) (writes::nat list).
               length reads = ndevs mp \<and> length writes = ndevs mp \<longrightarrow>
               (\<exists>reads' writes'.
                  resilver_row mp each_row (reads, writes) =
                    Inr (sum_list (groupsz mp), reads', writes') \<and>
                  (\<forall>d<ndevs mp. reads' ! d = reads ! d +
                     sum_list (map (\<lambda>j. group_reads_spec mp each_row j d) [0..<ngroups mp])) \<and>
                  (\<forall>d<ndevs mp. writes' ! d = writes ! d +
                     sum_list (map (\<lambda>j. group_writes_spec mp each_row j d) [0..<ngroups mp])))) \<and>
            (\<forall>j<ngroups mp.
               broken_before mp each_row (group_start mp j) (group_size mp j) \<le>
                 length (healthy_spares mp each_row) \<and>
               (\<forall>(reads::nat list) (writes::nat list).
                  length reads = ndevs mp \<and> length writes = ndevs mp \<longrightarrow>
                  (\<exists>spareIndex reads' writes'.
                     resilver_group mp each_row (group_start mp j) (group_size mp j)
                       (reads, writes) = Inr (spareIndex, reads', writes') \<and>
                     spareIndex \<le> ndevs mp \<and>
                     (\<forall>d<ndevs mp. reads' ! d = reads ! d +
                        (if d \<in> set (group_slots each_row (group_start mp j) (group_size mp j)) \<and>
                            d \<notin> broken_devs mp
                         then 1 else 0)) \<and>
                     (\<forall>d<ndevs mp. writes' ! d = writes ! d +
                        group_writes_spec mp each_row j d)))))"
proof (intro conjI ballI allI impI)
  show "resilver_rows mp (replicate (ndevs mp) 0, replicate (ndevs mp) 0) =
           Inr (map (reads_spec mp (rows mp) (ngroups mp)) [0..<ndevs mp],
                map (writes_spec mp (rows mp) (ngroups mp)) [0..<ndevs mp])"
    by (rule resilver_rows_spec [OF assms])
  show "eval_resilver mp = Inr (max_ios_spec mp)"
    by (rule eval_resilver_spec [OF assms])
next
  fix each_row assume row: "each_row \<in> set (rows mp)"
  have "distinct each_row" using assms row by (simp add: map_ok_def map_shape_def)
  then show "distinct (healthy_spares mp each_row)"
    by (simp add: healthy_spares_def spare_slots_def)
next
  fix each_row and reads writes :: "nat list"
  assume row: "each_row \<in> set (rows mp)"
    and l: "length reads = ndevs mp \<and> length writes = ndevs mp"
  from l have lr: "length reads = ndevs mp" and lw: "length writes = ndevs mp" by simp_all
  have lg: "length (groupsz mp) = ngroups mp"
    using assms by (simp add: map_ok_def map_shape_def)
  from resilver_row_spec [OF assms row lr lw]
  obtain s where run: "resilver_row mp each_row (reads, writes) = Inr s"
    and inv: "row_upto mp each_row reads writes (ngroups mp) s" by blast
  obtain ix r w where s: "s = (ix, r, w)" by (cases s)
  have ix: "ix = sum_list (groupsz mp)"
    and rd: "\<forall>d<ndevs mp. r ! d = reads ! d +
       sum_list (map (\<lambda>j. group_reads_spec mp each_row j d) [0..<ngroups mp])"
    and wr: "\<forall>d<ndevs mp. w ! d = writes ! d +
       sum_list (map (\<lambda>j. group_writes_spec mp each_row j d) [0..<ngroups mp])"
    using inv lg unfolding s by (simp_all add: row_upto_def reads_spec_def writes_spec_def)
  show "\<exists>reads' writes'.
      resilver_row mp each_row (reads, writes) = Inr (sum_list (groupsz mp), reads', writes') \<and>
      (\<forall>d<ndevs mp. reads' ! d = reads ! d +
         sum_list (map (\<lambda>j. group_reads_spec mp each_row j d) [0..<ngroups mp])) \<and>
      (\<forall>d<ndevs mp. writes' ! d = writes ! d +
         sum_list (map (\<lambda>j. group_writes_spec mp each_row j d) [0..<ngroups mp]))"
    by (intro exI conjI) (rule run [unfolded s ix], rule rd, rule wr)
next
  fix each_row j assume row: "each_row \<in> set (rows mp)" and j: "j < ngroups mp"
  have sh: "map_shape mp" and fit: "nbroken mp \<le> nspares mp"
    using assms by (simp_all add: map_ok_def)
  have sp: "nspares mp \<le> ndevs mp" and len: "length each_row = ndevs mp"
    and dist: "distinct each_row"
    using sh row by (simp_all add: map_shape_def)
  show "broken_before mp each_row (group_start mp j) (group_size mp j) \<le>
      length (healthy_spares mp each_row)"
    by (rule enough_spares [OF len dist sp group_fits [OF sh j] fit])
next
  fix each_row j and reads writes :: "nat list"
  assume row: "each_row \<in> set (rows mp)" and j: "j < ngroups mp"
    and l: "length reads = ndevs mp \<and> length writes = ndevs mp"
  have sh: "map_shape mp" and br: "listed_ok mp" and fit: "nbroken mp \<le> nspares mp"
    using assms by (simp_all add: map_ok_def)
  have sp: "nspares mp \<le> ndevs mp" and len: "length each_row = ndevs mp"
    and dist: "distinct each_row" and rg: "\<forall>d\<in>set each_row. d < ndevs mp"
    using sh row by (simp_all add: map_shape_def)
  from l have lr: "length reads = ndevs mp" and lw: "length writes = ndevs mp" by simp_all
  show "\<exists>spareIndex reads' writes'.
      resilver_group mp each_row (group_start mp j) (group_size mp j) (reads, writes) =
        Inr (spareIndex, reads', writes') \<and>
      spareIndex \<le> ndevs mp \<and>
      (\<forall>d<ndevs mp. reads' ! d = reads ! d +
         (if d \<in> set (group_slots each_row (group_start mp j) (group_size mp j)) \<and>
             d \<notin> broken_devs mp
          then 1 else 0)) \<and>
      (\<forall>d<ndevs mp. writes' ! d = writes ! d + group_writes_spec mp each_row j d)"
    unfolding group_writes_spec_def
    by (rule resilver_group_counts [OF br fit sp len dist rg lr lw group_fits [OF sh j]])
qed

theorem eval_resilver_rebuild_witness:
  "eval_resilver (map_6\<lparr>nbroken := 2, broken := [Some 0, Some 2]\<rparr>) = Inr 2 \<and>
   max_ios_spec (map_6\<lparr>nbroken := 2, broken := [Some 0, Some 2]\<rparr>) = 2 \<and>
   map (reads_spec (map_6\<lparr>nbroken := 2, broken := [Some 0, Some 2]\<rparr>) [[0, 1, 2, 3, 4, 5]] 2)
     [0..<6] = [0, 1, 0, 1, 0, 0] \<and>
   map (writes_spec (map_6\<lparr>nbroken := 2, broken := [Some 0, Some 2]\<rparr>) [[0, 1, 2, 3, 4, 5]] 2)
     [0..<6] = [0, 0, 0, 0, 2, 0]"
proof -
  let ?m = "map_6\<lparr>nbroken := 2, broken := [Some 0, Some 2]\<rparr>"
  have ok: "map_ok ?m"
    by (simp add: map_ok_def map_shape_def listed_ok_def map_6_def)
  have f: "ndevs ?m = 6" "rows ?m = [[0, 1, 2, 3, 4, 5]]" "ngroups ?m = 2"
    by (simp_all add: map_6_def)
  have e1: "resilver_rows ?m (replicate (ndevs ?m) 0, replicate (ndevs ?m) 0) =
      Inr ([0, 1, 0, 1, 0, 0], [0, 0, 0, 0, 2, 0])"
    by (simp add: map_6_def draid_eval)
  have e2: "eval_resilver ?m = Inr 2"
    by (simp add: map_6_def draid_eval)
  from eval_resilver_rebuild [OF ok]
  have rr: "resilver_rows ?m (replicate (ndevs ?m) 0, replicate (ndevs ?m) 0) =
           Inr (map (reads_spec ?m (rows ?m) (ngroups ?m)) [0..<ndevs ?m],
                map (writes_spec ?m (rows ?m) (ngroups ?m)) [0..<ndevs ?m])"
    and ev: "eval_resilver ?m = Inr (max_ios_spec ?m)" by blast+
  from rr e1 have "map (reads_spec ?m (rows ?m) (ngroups ?m)) [0..<ndevs ?m] = [0, 1, 0, 1, 0, 0]"
    "map (writes_spec ?m (rows ?m) (ngroups ?m)) [0..<ndevs ?m] = [0, 0, 0, 0, 2, 0]"
    by simp_all
  then have a: "map (reads_spec ?m [[0, 1, 2, 3, 4, 5]] 2) [0..<6] = [0, 1, 0, 1, 0, 0]"
    and b: "map (writes_spec ?m [[0, 1, 2, 3, 4, 5]] 2) [0..<6] = [0, 0, 0, 0, 2, 0]"
    by (simp_all only: f)
  from ev e2 have c: "max_ios_spec ?m = 2" by simp
  show ?thesis by (intro conjI) (rule e2, rule c, rule a, rule b)
qed

section \<open>\<^verbatim>\<open>eval_decluster\<close>: the value\<close>
























end
